theory Spec2Isabelle
  imports Main
begin

section \<open>Text: Python strings as lists of code points\<close>

text \<open>
  A Python \<open>str\<close> is a sequence of Unicode code points. The cleaning functions replace
  glyphs such as U+FB01 that lie outside one byte, so a text is a list of code points
  (natural numbers), and \<open>str\<close> turns an ASCII literal into such a list.
\<close>

type_synonym ustr = "nat list"

definition str :: "string \<Rightarrow> ustr" where
  "str s = map of_char s"

text \<open>
  The characters that \<open>str.isspace\<close>, \<open>str.strip\<close> and the regular expression class
  \<open>\s\<close> treat as whitespace.
\<close>

definition is_space :: "nat \<Rightarrow> bool" where
  "is_space c \<longleftrightarrow>
     (9 \<le> c \<and> c \<le> 13) \<or> (28 \<le> c \<and> c \<le> 32) \<or> c = 133 \<or> c = 160 \<or> c = 5760 \<or>
     (8192 \<le> c \<and> c \<le> 8202) \<or> c = 8232 \<or> c = 8233 \<or> c = 8239 \<or> c = 8287 \<or> c = 12288"

text \<open>
  The Unicode character database behind \<open>\w\<close> and \<open>\d\<close> is not part of the repository;
  it is a parameter: \<open>isalnum\<close> is \<open>str.isalnum\<close> on one code point, \<open>isdecimal\<close> is
  membership in the category of decimal digits.
\<close>

record ucd =
  isalnum :: "nat \<Rightarrow> bool"
  isdecimal :: "nat \<Rightarrow> bool"

definition is_word :: "ucd \<Rightarrow> nat \<Rightarrow> bool" where
  "is_word U c \<longleftrightarrow> isalnum U c \<or> c = 95"

definition is_digit :: "ucd \<Rightarrow> nat \<Rightarrow> bool" where
  "is_digit U c \<longleftrightarrow> isdecimal U c"

text \<open>
  What every version of the database satisfies: a decimal digit is alphanumeric, and no
  whitespace character is a word character.
\<close>

definition ucd_ok :: "ucd \<Rightarrow> bool" where
  "ucd_ok U \<longleftrightarrow> (\<forall>c. isdecimal U c \<longrightarrow> isalnum U c) \<and> (\<forall>c. is_space c \<longrightarrow> \<not> is_word U c)"

text \<open>The tables on ASCII, for evaluating the functions on ASCII texts.\<close>

definition ascii_ucd :: ucd where
  "ascii_ucd = \<lparr> isalnum = (\<lambda>c. (48 \<le> c \<and> c \<le> 57) \<or> (65 \<le> c \<and> c \<le> 90) \<or> (97 \<le> c \<and> c \<le> 122)),
                 isdecimal = (\<lambda>c. 48 \<le> c \<and> c \<le> 57) \<rparr>"

section \<open>The regular expressions of data_cleaning.py\<close>

text \<open>
  A matcher is one compiled pattern: given the character before the position (\<open>None\<close> at
  the start of the text) and the text from the position on, it returns the length of the
  match that starts there, if there is one.
\<close>

type_synonym matcher = "nat option \<Rightarrow> ustr \<Rightarrow> nat option"

definition first :: "ustr \<Rightarrow> nat option" where
  "first s = (case s of [] \<Rightarrow> None | c # _ \<Rightarrow> Some c)"

definition opt_word :: "ucd \<Rightarrow> nat option \<Rightarrow> bool" where
  "opt_word U p = (case p of None \<Rightarrow> False | Some c \<Rightarrow> is_word U c)"

text \<open>\<open>\b\<close>: exactly one of the two neighbours is a word character.\<close>

definition word_boundary :: "ucd \<Rightarrow> nat option \<Rightarrow> nat option \<Rightarrow> bool" where
  "word_boundary U p n \<longleftrightarrow> opt_word U p \<noteq> opt_word U n"

text \<open>
  \<open>re.IGNORECASE\<close> on a letter of the pattern: the two ASCII cases and, for \<open>i\<close>, \<open>s\<close> and
  \<open>k\<close>, the letters U+0130, U+0131, U+017F and U+212A.
\<close>

definition re_fold :: "nat \<Rightarrow> nat" where
  "re_fold c = (if 65 \<le> c \<and> c \<le> 90 then c + 32
                else if c = 304 \<or> c = 305 then 105
                else if c = 383 then 115
                else if c = 8490 then 107
                else c)"

definition ci_eq :: "nat \<Rightarrow> nat \<Rightarrow> bool" where
  "ci_eq p c \<longleftrightarrow> re_fold p = re_fold c"

fun ci_prefix :: "ustr \<Rightarrow> ustr \<Rightarrow> bool" where
  "ci_prefix [] s = True"
| "ci_prefix (p # ps) [] = False"
| "ci_prefix (p # ps) (c # cs) = (ci_eq p c \<and> ci_prefix ps cs)"

text \<open>\<open>\n+\<close>\<close>

definition m_newlines :: matcher where
  "m_newlines prev s =
     (let n = length (takeWhile (\<lambda>c. c = 10) s) in if n = 0 then None else Some n)"

text \<open>
  \<open>\bPage\s*\d+\b\<close> with \<open>re.IGNORECASE\<close>. Both repetitions are greedy. Giving back a
  digit leaves a digit on both sides of the final \<open>\b\<close>, and giving back a whitespace
  character leaves \<open>\d+\<close> in front of whitespace, so the longest runs decide.
\<close>

definition m_page :: "ucd \<Rightarrow> matcher" where
  "m_page U prev s =
     (if ci_prefix (str ''Page'') s \<and> word_boundary U prev (first s) then
        (let r = drop 4 s;
             ws = takeWhile is_space r;
             r1 = dropWhile is_space r;
             ds = takeWhile (is_digit U) r1;
             r2 = dropWhile (is_digit U) r1
         in if ds \<noteq> [] \<and> word_boundary U (Some (last ds)) (first r2)
            then Some (4 + length ws + length ds) else None)
      else None)"

text \<open>
  \<open>^\s*\d+\s*$\<close> with \<open>re.MULTILINE\<close>: \<open>^\<close> holds at the start and after a newline, \<open>$\<close>
  at the end and before a newline. The last \<open>\s*\<close> takes the whole whitespace run when
  the text ends there, and otherwise gives characters back until a newline follows,
  which is the last newline of the run.
\<close>

definition m_digit_line :: "ucd \<Rightarrow> matcher" where
  "m_digit_line U prev s =
     (if prev = None \<or> prev = Some 10 then
        (let ws1 = takeWhile is_space s;
             r1 = dropWhile is_space s;
             ds = takeWhile (is_digit U) r1;
             r2 = dropWhile (is_digit U) r1;
             ws2 = takeWhile is_space r2;
             r3 = dropWhile is_space r2
         in if ds = [] then None
            else if r3 = [] then Some (length s)
            else if 10 \<in> set ws2
              then Some (length ws1 + length ds +
                         (length ws2 - Suc (length (takeWhile (\<lambda>c. c \<noteq> 10) (rev ws2)))))
            else None)
      else None)"

text \<open>\<open>(?<!\n)\n(?!\n)\<close>\<close>

definition m_single_newline :: matcher where
  "m_single_newline prev s =
     (case s of [] \<Rightarrow> None
      | c # r \<Rightarrow> if c = 10 \<and> prev \<noteq> Some 10 \<and> first r \<noteq> Some 10 then Some 1 else None)"

text \<open>\<open>\s+\<close>\<close>

definition m_spaces :: matcher where
  "m_spaces prev s =
     (let n = length (takeWhile is_space s) in if n = 0 then None else Some n)"

text \<open>A literal word between two \<open>\b\<close>, with \<open>re.IGNORECASE\<close>.\<close>

definition m_word :: "ucd \<Rightarrow> ustr \<Rightarrow> matcher" where
  "m_word U lit prev s =
     (if lit \<noteq> [] \<and> ci_prefix lit s \<and> word_boundary U prev (first s) \<and>
         word_boundary U (Some (s ! (length lit - 1))) (first (drop (length lit) s))
      then Some (length lit) else None)"

text \<open>\<open>\bReferences\b|\bBibliography\b\<close> with \<open>re.IGNORECASE\<close>: the left alternative first.\<close>

definition m_references :: "ucd \<Rightarrow> matcher" where
  "m_references U prev s =
     (case m_word U (str ''References'') prev s of
        Some n \<Rightarrow> Some n
      | None \<Rightarrow> m_word U (str ''Bibliography'') prev s)"

text \<open>
  None of the patterns above matches the empty string. The scanners below take a match
  only when its length lies in \<open>1..length s\<close>; any other answer of a matcher counts as
  no match.
\<close>

definition match_at :: "matcher \<Rightarrow> nat option \<Rightarrow> ustr \<Rightarrow> nat option" where
  "match_at m prev s =
     (case m prev s of
        None \<Rightarrow> None
      | Some n \<Rightarrow> if 0 < n \<and> n \<le> length s then Some n else None)"

text \<open>
  \<open>re.sub\<close>: scan from the left; where the pattern matches, emit the replacement and
  continue behind the match, otherwise copy one character. The character before the
  next position is always the one of the scanned text.
\<close>

function re_sub :: "matcher \<Rightarrow> ustr \<Rightarrow> nat option \<Rightarrow> ustr \<Rightarrow> ustr" where
  "re_sub m repl prev s =
     (case match_at m prev s of
        Some n \<Rightarrow> repl @ re_sub m repl (Some (s ! (n - 1))) (drop n s)
      | None \<Rightarrow> (case s of [] \<Rightarrow> [] | c # cs \<Rightarrow> c # re_sub m repl (Some c) cs))"
  by pat_completeness auto
termination
  by (relation "measure (\<lambda>(m, repl, prev, s). length s)")
     (auto simp: match_at_def split: option.splits if_splits)

text \<open>\<open>re.split\<close>: the pieces of the text between the matches.\<close>

function re_split :: "matcher \<Rightarrow> nat option \<Rightarrow> ustr \<Rightarrow> ustr list" where
  "re_split m prev s =
     (case match_at m prev s of
        Some n \<Rightarrow> [] # re_split m (Some (s ! (n - 1))) (drop n s)
      | None \<Rightarrow> (case s of [] \<Rightarrow> [[]]
                 | c # cs \<Rightarrow> (case re_split m (Some c) cs of
                                [] \<Rightarrow> [[c]]
                              | p # ps \<Rightarrow> (c # p) # ps)))"
  by pat_completeness auto
termination
  by (relation "measure (\<lambda>(m, prev, s). length s)")
     (auto simp: match_at_def split: option.splits if_splits)

text \<open>\<open>str.strip()\<close>\<close>

definition strip :: "ustr \<Rightarrow> ustr" where
  "strip s = rev (dropWhile is_space (rev (dropWhile is_space s)))"

text \<open>
  \<open>str.replace(old, new)\<close>: every occurrence of \<open>old\<close>, left to right, without overlap.
  (All calls in the source have a one-character \<open>old\<close>.)
\<close>

function str_replace :: "ustr \<Rightarrow> ustr \<Rightarrow> ustr \<Rightarrow> ustr" where
  "str_replace old new s =
     (if old \<noteq> [] \<and> take (length old) s = old
      then new @ str_replace old new (drop (length old) s)
      else (case s of [] \<Rightarrow> [] | c # cs \<Rightarrow> c # str_replace old new cs))"
  by pat_completeness auto
termination
proof (relation "measure (\<lambda>(old, new, s). length s)")
  show "wf (measure (\<lambda>(old, new, s). length s))" by simp
next
  fix old new s :: ustr
  assume "old \<noteq> [] \<and> take (length old) s = old"
  then have "s \<noteq> []" by auto
  with \<open>old \<noteq> [] \<and> take (length old) s = old\<close>
  show "((old, new, drop (length old) s), (old, new, s)) \<in> measure (\<lambda>(old, new, s). length s)"
    by (cases old) auto
next
  fix old new s :: ustr and c cs
  assume "s = c # cs"
  then show "((old, new, cs), (old, new, s)) \<in> measure (\<lambda>(old, new, s). length s)" by simp
qed

section \<open>data_cleaning.py\<close>

definition clean_text :: "ucd \<Rightarrow> ustr \<Rightarrow> ustr" where
  "clean_text U text =
     (let text = re_sub m_newlines [10] None text;
          text = re_sub (m_page U) [] None text;
          text = re_sub (m_digit_line U) [] None text;
          text = re_sub m_single_newline [32] None text;
          text = re_sub m_spaces [32] None text
      in strip text)"

definition normalize_text :: "ustr \<Rightarrow> ustr" where
  "normalize_text text =
     (let text = str_replace [64258] (str ''fl'') (str_replace [64257] (str ''fi'') text);
          text = str_replace [8217] [39]
                   (str_replace [8221] [34] (str_replace [8220] [34] text))
      in text)"

definition remove_references :: "ucd \<Rightarrow> ustr \<Rightarrow> ustr" where
  "remove_references U text =
     (let parts = re_split (m_references U) None text
      in case parts of [] \<Rightarrow> text | p # _ \<Rightarrow> p)"


section \<open>The collaborators of ollama_rag_creation_updation.py\<close>

text \<open>
  The exceptions a run can end with, by the operation that raises them: reading a file
  or listing a folder, loading a PDF, computing embeddings, writing the vector store.
\<close>

datatype error = FileAccessError | ExtractionError | EmbeddingError | StoreError

type_synonym bytes = "char list"

text \<open>
  A langchain \<open>Document\<close>: its text and its metadata dictionary.
\<close>

record document =
  page_content :: ustr
  metadata :: "string \<rightharpoonup> ustr"

text \<open>
  Everything the module reaches outside the repository is a field of the environment:
  the character tables, \<open>str.lower\<close>, \<open>hashlib.md5\<close>, the file system, \<open>PyPDFLoader\<close>,
  \<open>RecursiveCharacterTextSplitter(chunk_size=1500, chunk_overlap=200)\<close>, \<open>uuid.uuid4\<close>
  (its n-th draw), the embedding model with the failure it may raise on a batch, the
  failures of the store on adding a batch and on persisting, and \<open>cfg.CLEAN_REFERENCES\<close>.
\<close>

record 'v env =
  tables :: ucd
  lower :: "ustr \<Rightarrow> ustr"
  md5_hexdigest :: "bytes \<Rightarrow> ustr"
  listdir :: "ustr \<Rightarrow> ustr list option"
  file_bytes :: "ustr \<Rightarrow> bytes option"
  pdf_loader :: "ustr \<Rightarrow> error + document list"
  split_documents :: "document list \<Rightarrow> document list"
  uuid4 :: "nat \<Rightarrow> ustr"
  embed :: "ustr \<Rightarrow> 'v"
  embed_error :: "ustr list \<Rightarrow> error option"
  store_error :: "(document \<times> 'v) list \<Rightarrow> error option"
  persist_error :: "error option"
  clean_references :: bool

text \<open>
  The state that outlives a call: the Chroma collections on disk, by directory (no entry
  when the directory does not exist), each the list of stored chunks with their vectors
  in insertion order, and the number of identifiers drawn so far.
\<close>

record 'v state =
  chroma_dirs :: "ustr \<rightharpoonup> (document \<times> 'v) list"
  uuid_drawn :: nat

datatype outcome = No_new_PDFs | RAG_updated nat

subsection \<open>Paths, suffixes and number formatting\<close>

text \<open>\<open>os.path.join\<close> and \<open>os.path.basename\<close> on POSIX; 47 is the slash.\<close>

definition path_join :: "ustr \<Rightarrow> ustr \<Rightarrow> ustr" where
  "path_join a b =
     (if b \<noteq> [] \<and> hd b = 47 then b
      else if a = [] \<or> last a = 47 then a @ b
      else a @ [47] @ b)"

definition basename :: "ustr \<Rightarrow> ustr" where
  "basename p = rev (takeWhile (\<lambda>c. c \<noteq> 47) (rev p))"

definition endswith :: "ustr \<Rightarrow> ustr \<Rightarrow> bool" where
  "endswith s suffix \<longleftrightarrow>
     length suffix \<le> length s \<and> drop (length s - length suffix) s = suffix"

text \<open>\<open>str(n)\<close> for a natural number, and the format \<open>{n:03d}\<close>.\<close>

function dec :: "nat \<Rightarrow> ustr" where
  "dec n = (if n < 10 then [48 + n] else dec (n div 10) @ [48 + n mod 10])"
  by pat_completeness auto
termination
  by (relation "measure id") auto

definition format_03d :: "nat \<Rightarrow> ustr" where
  "format_03d n = replicate (3 - length (dec n)) 48 @ dec n"

subsection \<open>get_file_hash\<close>

text \<open>
  A file opened for reading: its bytes and the read position. \<open>read()\<close> without a size
  returns everything from the position to the end.
\<close>

record file_obj =
  content :: bytes
  pos :: nat

definition open_rb :: "'v env \<Rightarrow> ustr \<Rightarrow> error + file_obj" where
  "open_rb E filepath =
     (case file_bytes E filepath of
        None \<Rightarrow> Inl FileAccessError
      | Some b \<Rightarrow> Inr \<lparr> content = b, pos = 0 \<rparr>)"

definition read :: "file_obj \<Rightarrow> bytes \<times> file_obj" where
  "read f = (drop (pos f) (content f), f\<lparr> pos := length (content f) \<rparr>)"

text \<open>An MD5 object is the data fed to it; the digest is taken over all of it.\<close>

type_synonym hasher = bytes

definition hashlib_md5 :: hasher where
  "hashlib_md5 = []"

definition update :: "hasher \<Rightarrow> bytes \<Rightarrow> hasher" where
  "update h buf = h @ buf"

definition hexdigest :: "'v env \<Rightarrow> hasher \<Rightarrow> ustr" where
  "hexdigest E h = md5_hexdigest E h"

definition get_file_hash :: "'v env \<Rightarrow> ustr \<Rightarrow> error + ustr" where
  "get_file_hash E filepath =
     (let hasher = hashlib_md5 in
      case open_rb E filepath of
        Inl e \<Rightarrow> Inl e
      | Inr f \<Rightarrow>
          (let (buf, f) = read f;
               hasher = update hasher buf
           in Inr (hexdigest E hasher)))"

subsection \<open>load_existing_metadata\<close>

text \<open>
  Without the directory the table is empty. Otherwise the collection of the directory is
  opened, which leaves an existing directory as it is, and the metadata of its entries
  are read.
\<close>

fun existing_loop :: "(string \<rightharpoonup> ustr) list \<Rightarrow> (ustr \<rightharpoonup> ustr) \<Rightarrow> (ustr \<rightharpoonup> ustr)" where
  "existing_loop [] existing = existing"
| "existing_loop (meta # metas) existing =
     (case meta ''source'' of
        None \<Rightarrow> existing_loop metas existing
      | Some source \<Rightarrow>
          (case meta ''hash'' of
             None \<Rightarrow> existing_loop metas existing
           | Some h \<Rightarrow> existing_loop metas (existing(basename source \<mapsto> h))))"

definition load_existing_metadata :: "'v state \<Rightarrow> ustr \<Rightarrow> (ustr \<rightharpoonup> ustr)" where
  "load_existing_metadata S persist_dir =
     (case chroma_dirs S persist_dir of
        None \<Rightarrow> Map.empty
      | Some db \<Rightarrow> existing_loop (map (\<lambda>(d, v). metadata d) db) Map.empty)"

subsection \<open>get_new_pdfs\<close>

fun new_pdfs_loop ::
  "'v env \<Rightarrow> ustr \<Rightarrow> (ustr \<rightharpoonup> ustr) \<Rightarrow> ustr list \<Rightarrow> ustr list \<Rightarrow> error + ustr list" where
  "new_pdfs_loop E pdf_folder existing_hashes [] new_files = Inr new_files"
| "new_pdfs_loop E pdf_folder existing_hashes (filename # rest) new_files =
     (if \<not> endswith (lower E filename) (str ''.pdf'')
      then new_pdfs_loop E pdf_folder existing_hashes rest new_files
      else
        (let filepath = path_join pdf_folder filename in
         case get_file_hash E filepath of
           Inl e \<Rightarrow> Inl e
         | Inr file_hash \<Rightarrow>
             if existing_hashes filename = None \<or> existing_hashes filename \<noteq> Some file_hash
             then new_pdfs_loop E pdf_folder existing_hashes rest (new_files @ [filepath])
             else new_pdfs_loop E pdf_folder existing_hashes rest new_files))"

definition get_new_pdfs :: "'v env \<Rightarrow> ustr \<Rightarrow> (ustr \<rightharpoonup> ustr) \<Rightarrow> error + ustr list" where
  "get_new_pdfs E pdf_folder existing_hashes =
     (case listdir E pdf_folder of
        None \<Rightarrow> Inl FileAccessError
      | Some names \<Rightarrow> new_pdfs_loop E pdf_folder existing_hashes names [])"

subsection \<open>process_pdfs\<close>

definition clean_page :: "'v env \<Rightarrow> document \<Rightarrow> document" where
  "clean_page E d =
     (let d = d\<lparr> page_content := normalize_text (clean_text (tables E) (page_content d)) \<rparr>
      in if clean_references E
         then d\<lparr> page_content := remove_references (tables E) (page_content d) \<rparr>
         else d)"

definition tag_chunk :: "'v env \<Rightarrow> ustr \<Rightarrow> ustr \<Rightarrow> nat \<Rightarrow> nat \<times> document \<Rightarrow> document" where
  "tag_chunk E filepath file_hash drawn ic =
     (case ic of (idx, chunk) \<Rightarrow>
        chunk\<lparr> metadata := (metadata chunk)
                 (''source'' \<mapsto> filepath,
                  ''hash'' \<mapsto> file_hash,
                  ''chunk_id'' \<mapsto> basename filepath @ [95] @ format_03d idx,
                  ''uuid'' \<mapsto> uuid4 E (drawn + idx)) \<rparr>)"

definition tag_chunks :: "'v env \<Rightarrow> ustr \<Rightarrow> ustr \<Rightarrow> nat \<Rightarrow> document list \<Rightarrow> document list" where
  "tag_chunks E filepath file_hash drawn chunks =
     map (tag_chunk E filepath file_hash drawn) (enumerate 0 chunks)"

text \<open>
  The loop over the files. No statement of it is inside a \<open>try\<close>: an exception of the
  loader or of \<open>get_file_hash\<close> leaves the loop and the function.
\<close>

fun process_loop ::
  "'v env \<Rightarrow> ustr list \<Rightarrow> nat \<Rightarrow> document list \<Rightarrow> error + (document list \<times> nat)" where
  "process_loop E [] drawn all_docs = Inr (all_docs, drawn)"
| "process_loop E (filepath # rest) drawn all_docs =
     (case pdf_loader E filepath of
        Inl e \<Rightarrow> Inl e
      | Inr docs \<Rightarrow>
          (let docs = map (clean_page E) docs;
               chunks = split_documents E docs
           in case get_file_hash E filepath of
                Inl e \<Rightarrow> Inl e
              | Inr file_hash \<Rightarrow>
                  (let chunks = tag_chunks E filepath file_hash drawn chunks
                   in process_loop E rest (drawn + length chunks) (all_docs @ chunks))))"

text \<open>
  \<open>Chroma(persist_directory=persist_dir, ...)\<close>: opens the collection kept in the
  directory. When the directory does not exist the constructor creates it, with an empty
  collection, before anything is added.
\<close>

definition Chroma :: "ustr \<Rightarrow> 'v state \<Rightarrow> (document \<times> 'v) list \<times> 'v state" where
  "Chroma persist_dir S =
     (case chroma_dirs S persist_dir of
        None \<Rightarrow> ([], S\<lparr> chroma_dirs := (chroma_dirs S)(persist_dir \<mapsto> []) \<rparr>)
      | Some db \<Rightarrow> (db, S))"

text \<open>
  \<open>db.add_documents\<close>: embed the texts, then add the chunks with their vectors to the
  collection; \<open>db.persist\<close>: write the collection to the directory. Either raises without
  having written.
\<close>

definition add_documents ::
  "'v env \<Rightarrow> document list \<Rightarrow> (document \<times> 'v) list \<Rightarrow> error + (document \<times> 'v) list" where
  "add_documents E docs db =
     (case embed_error E (map page_content docs) of
        Some e \<Rightarrow> Inl e
      | None \<Rightarrow>
          (let batch = map (\<lambda>d. (d, embed E (page_content d))) docs
           in case store_error E batch of
                Some e \<Rightarrow> Inl e
              | None \<Rightarrow> Inr (db @ batch)))"

definition persist ::
  "'v env \<Rightarrow> (document \<times> 'v) list \<Rightarrow> ustr \<Rightarrow> 'v state \<Rightarrow> error + 'v state" where
  "persist E db persist_dir S =
     (case persist_error E of
        Some e \<Rightarrow> Inl e
      | None \<Rightarrow> Inr (S\<lparr> chroma_dirs := (chroma_dirs S)(persist_dir \<mapsto> db) \<rparr>))"

definition process_pdfs ::
  "'v env \<Rightarrow> ustr list \<Rightarrow> ustr \<Rightarrow> 'v state \<Rightarrow> (error + outcome) \<times> 'v state" where
  "process_pdfs E pdf_files persist_dir S =
     (if pdf_files = [] then (Inr No_new_PDFs, S)
      else
        case process_loop E pdf_files (uuid_drawn S) [] of
          Inl e \<Rightarrow> (Inl e, S)
        | Inr (all_docs, drawn) \<Rightarrow>
            (let S = S\<lparr> uuid_drawn := drawn \<rparr>;
                 (db, S) = Chroma persist_dir S
             in case add_documents E all_docs db of
                  Inl e \<Rightarrow> (Inl e, S)
                | Inr db \<Rightarrow>
                    (case persist E db persist_dir S of
                       Inl e \<Rightarrow> (Inl e, S)
                     | Inr S \<Rightarrow> (Inr (RAG_updated (length all_docs)), S))))"

subsection \<open>update_rag\<close>

definition update_rag ::
  "'v env \<Rightarrow> ustr \<Rightarrow> ustr \<Rightarrow> 'v state \<Rightarrow> (error + outcome) \<times> 'v state" where
  "update_rag E pdf_folder persist_dir S =
     (let existing = load_existing_metadata S persist_dir in
      case get_new_pdfs E pdf_folder existing of
        Inl e \<Rightarrow> (Inl e, S)
      | Inr new_pdfs \<Rightarrow> process_pdfs E new_pdfs persist_dir S)"

section \<open>Auxiliary definitions\<close>

text \<open>What \<open>normalize_text\<close> makes of one character.\<close>

definition norm_char :: "nat \<Rightarrow> ustr" where
  "norm_char c =
     (if c = 64257 then str ''fi'' else if c = 64258 then str ''fl''
      else if c = 8220 \<or> c = 8221 then [34] else if c = 8217 then [39] else [c])"

definition str_less :: "ustr \<Rightarrow> ustr \<Rightarrow> bool" where
  "str_less a b \<longleftrightarrow> (a, b) \<in> lexord {(x, y). x < y}"

definition is_new_pdf :: "'v env \<Rightarrow> ustr \<Rightarrow> (ustr \<rightharpoonup> ustr) \<Rightarrow> ustr \<Rightarrow> bool" where
  "is_new_pdf E folder K f \<longleftrightarrow>
     endswith (lower E f) (str ''.pdf'') \<and>
     (f \<notin> dom K \<or> (\<exists>h. get_file_hash E (path_join folder f) = Inr h \<and> K f \<noteq> Some h))"

text \<open>
  A small environment for evaluating the functions: ASCII lower-casing, a digest that
  spells out the bytes, the folder \<open>papers\<close> with three entries, one chunk for each
  page that has text. The loader fails on \<open>bad.pdf\<close>, and the store refuses an empty
  batch, as a Chroma collection does; no other collaborator fails.
\<close>

definition ascii_lower :: "ustr \<Rightarrow> ustr" where
  "ascii_lower s = map (\<lambda>c. if 65 \<le> c \<and> c \<le> 90 then c + 32 else c) s"

definition demo_listdir :: "ustr \<Rightarrow> ustr list option" where
  "demo_listdir d =
     (if d = str ''papers'' then Some [str ''a.pdf'', str ''B.PDF'', str ''notes.txt'']
      else if d = str ''good'' then Some [str ''a.pdf'']
      else None)"

definition demo_files :: "ustr \<Rightarrow> bytes option" where
  "demo_files p =
     (if p = str ''papers/a.pdf'' then Some ''A''
      else if p = str ''papers/B.PDF'' then Some ''B''
      else if p = str ''papers/notes.txt'' then Some ''n''
      else if p = str ''good/a.pdf'' then Some ''A''
      else if p = str ''bad.pdf'' then Some ''x''
      else None)"

definition demo_loader :: "ustr \<Rightarrow> error + document list" where
  "demo_loader p =
     (if p = str ''papers/a.pdf'' \<or> p = str ''good/a.pdf''
        then Inr [\<lparr> page_content = str ''Hi'', metadata = Map.empty \<rparr>]
      else if p = str ''papers/B.PDF'' then Inr []
      else Inl ExtractionError)"

definition demo_env :: "unit env" where
  "demo_env =
     \<lparr> tables = ascii_ucd,
       lower = ascii_lower,
       md5_hexdigest = map of_char,
       listdir = demo_listdir,
       file_bytes = demo_files,
       pdf_loader = demo_loader,
       split_documents = filter (\<lambda>d. page_content d \<noteq> []),
       uuid4 = dec,
       embed = (\<lambda>t. ()),
       embed_error = (\<lambda>ts. None),
       store_error = (\<lambda>b. if b = [] then Some StoreError else None),
       persist_error = None,
       clean_references = True \<rparr>"

text \<open>
  The state before the first run, a state whose store in \<open>db\<close> holds one chunk of an
  earlier file, and an environment whose embedding model fails.
\<close>

definition demo_state :: "unit state" where
  "demo_state = \<lparr> chroma_dirs = Map.empty, uuid_drawn = 0 \<rparr>"





text \<open>
  The words of the specification of \<open>remove_references\<close>, written without the matcher.
  A character is a case form of a small ASCII letter when it is that letter or its
  capital; Unicode adds U+0130 and U+0131 to the forms of \<open>i\<close>, U+017F to those of \<open>s\<close>
  and U+212A to those of \<open>k\<close>. A text spells a token, given in small letters, without
  regard to case when it has the token's length and each of its characters is a case form
  of the token's letter at that place. The token occurs at index \<open>i\<close> of a text as a
  whole word when the characters from \<open>i\<close> on spell it and neither the character before
  them nor the character behind them, where there is one, is a word character. The
  character tables of Python make every case form of a letter alphanumeric.
\<close>

definition case_forms :: "nat \<Rightarrow> nat list" where
  "case_forms l =
     [l, l - 32] @
     (if l = 105 then [304, 305] else if l = 115 then [383] else if l = 107 then [8490]
      else [])"

definition spells :: "ustr \<Rightarrow> ustr \<Rightarrow> bool" where
  "spells token s \<longleftrightarrow> list_all2 (\<lambda>l c. c \<in> set (case_forms l)) token s"

definition token_at :: "ucd \<Rightarrow> ustr \<Rightarrow> ustr \<Rightarrow> nat \<Rightarrow> bool" where
  "token_at U token t i \<longleftrightarrow>
     i + length token \<le> length t \<and>
     spells token (take (length token) (drop i t)) \<and>
     (i = 0 \<or> \<not> is_word U (t ! (i - 1))) \<and>
     (i + length token = length t \<or> \<not> is_word U (t ! (i + length token)))"

definition heading_at :: "ucd \<Rightarrow> ustr \<Rightarrow> nat \<Rightarrow> bool" where
  "heading_at U t i \<longleftrightarrow>
     token_at U (str ''references'') t i \<or> token_at U (str ''bibliography'') t i"

definition letters_alnum :: "ucd \<Rightarrow> bool" where
  "letters_alnum U \<longleftrightarrow> (\<forall>l \<in> {97..122}. \<forall>c \<in> set (case_forms l). isalnum U c)"

text \<open>
  The ASCII tables with the four further case forms, and three texts: the example of the
  specification; one that has the tokens inside a longer word, before an underscore and,
  in mixed case, as a whole word; one that has a token only inside a longer word.
\<close>

definition letters_ucd :: ucd where
  "letters_ucd =
     \<lparr> isalnum = (\<lambda>c. isalnum ascii_ucd c \<or> c = 304 \<or> c = 305 \<or> c = 383 \<or> c = 8490),
       isdecimal = isdecimal ascii_ucd \<rparr>"

definition mixed_headings :: ustr where
  "mixed_headings = str ''Preferences rEFERENCES_ BiblioGraphy: References''"

definition inside_word :: ustr where
  "inside_word = str ''Preferences''"

text \<open>
  The condition under which the pattern of \<open>remove_references\<close> matches at index \<open>i\<close> of
  a text: the literal is a prefix of the text from \<open>i\<close> on, compared as \<open>re.IGNORECASE\<close>
  does, and \<open>\b\<close> holds before and behind it.
\<close>

definition char_before :: "ustr \<Rightarrow> nat \<Rightarrow> nat option" where
  "char_before t i = (if i = 0 then None else Some (t ! (i - 1)))"

definition word_at :: "ucd \<Rightarrow> ustr \<Rightarrow> ustr \<Rightarrow> nat \<Rightarrow> bool" where
  "word_at U lit t i \<longleftrightarrow>
     ci_prefix lit (drop i t) \<and>
     word_boundary U (char_before t i) (first (drop i t)) \<and>
     word_boundary U (Some (t ! (i + length lit - 1))) (first (drop (i + length lit) t))"

definition ref_at :: "ucd \<Rightarrow> ustr \<Rightarrow> nat \<Rightarrow> bool" where
  "ref_at U t i \<longleftrightarrow>
     word_at U (str ''References'') t i \<or> word_at U (str ''Bibliography'') t i"

definition body_and_references :: ustr where
  "body_and_references = str ''...body text...\<newline>References\<newline>[1] foo''"

text \<open>The context of position \<open>k\<close> of a text that is scanned with \<open>prev\<close> before it.\<close>

definition ctx :: "nat option \<Rightarrow> ustr \<Rightarrow> nat \<Rightarrow> nat option" where
  "ctx prev s k = (if k = 0 then prev else Some (s ! (k - 1)))"

text \<open>
  The chunks the splitter makes of the cleaned pages of a file, and the file names under
  which a list of metadata dictionaries records a source.
\<close>

definition chunks_of :: "'v env \<Rightarrow> ustr \<Rightarrow> document list" where
  "chunks_of E filepath =
     (case pdf_loader E filepath of
        Inl e \<Rightarrow> []
      | Inr docs \<Rightarrow> split_documents E (map (clean_page E) docs))"

definition source_names :: "(string \<rightharpoonup> ustr) list \<Rightarrow> ustr set" where
  "source_names metas = {basename p | p. \<exists>meta \<in> set metas. meta ''source'' = Some p}"

text \<open>
  For the properties of cleaned text: a pattern matches at a position, or somewhere in
  a text (\<open>re.search\<close>); the shapes of text behind the word \<open>Page\<close> and of a line of
  digits; the patterns that match whitespace only; the positions where \<open>^\<close> holds.
\<close>

definition matches :: "matcher \<Rightarrow> nat option \<Rightarrow> ustr \<Rightarrow> bool" where
  "matches m prev s \<longleftrightarrow> m prev s \<noteq> None"

fun has_match :: "matcher \<Rightarrow> nat option \<Rightarrow> ustr \<Rightarrow> bool" where
  "has_match m prev [] = matches m prev []"
| "has_match m prev (c # cs) = (matches m prev (c # cs) \<or> has_match m (Some c) cs)"

definition tail_ok :: "ucd \<Rightarrow> ustr \<Rightarrow> bool" where
  "tail_ok U x \<longleftrightarrow>
     takeWhile (is_digit U) (dropWhile is_space x) \<noteq> [] \<and>
     word_boundary U (Some (last (takeWhile (is_digit U) (dropWhile is_space x))))
       (first (dropWhile (is_digit U) (dropWhile is_space x)))"

definition digits_end :: "ucd \<Rightarrow> nat \<Rightarrow> ustr \<Rightarrow> bool" where
  "digits_end U d x \<longleftrightarrow>
     word_boundary U (Some (last (d # takeWhile (is_digit U) x)))
       (first (dropWhile (is_digit U) x))"

definition digit_line :: "ucd \<Rightarrow> ustr \<Rightarrow> bool" where
  "digit_line U x \<longleftrightarrow>
     takeWhile (is_digit U) (dropWhile is_space x) \<noteq> [] \<and>
     dropWhile is_space (dropWhile (is_digit U) (dropWhile is_space x)) = []"

definition digits_rest :: "ucd \<Rightarrow> ustr \<Rightarrow> bool" where
  "digits_rest U x \<longleftrightarrow> dropWhile is_space (dropWhile (is_digit U) x) = []"

definition ws_matcher :: "matcher \<Rightarrow> bool" where
  "ws_matcher m \<longleftrightarrow>
     (\<forall>prev s n. match_at m prev s = Some n \<longrightarrow> (\<forall>c \<in> set (take n s). is_space c))"

definition line_start :: "nat option \<Rightarrow> bool" where
  "line_start prev \<longleftrightarrow> prev = None \<or> prev = Some 10"

section \<open>Unfolding the scanners\<close>

declare re_sub.simps [simp del] re_split.simps [simp del] str_replace.simps [simp del]
declare dec.simps [simp del]

lemma str_simps: "str [] = []" "str (c # cs) = of_char c # str cs"
  by (simp_all add: str_def)

lemma match_at_Nil: "match_at m prev [] = None"
  by (simp add: match_at_def split: option.splits)

lemma match_at_SomeD:
  "match_at m prev s = Some n \<Longrightarrow> m prev s = Some n \<and> 0 < n \<and> n \<le> length s"
  by (auto simp: match_at_def split: option.splits if_splits)

lemma re_sub_Nil: "re_sub m repl prev [] = []"
  by (simp add: re_sub.simps match_at_Nil)

lemma re_sub_hit:
  "match_at m prev s = Some n \<Longrightarrow>
   re_sub m repl prev s = repl @ re_sub m repl (Some (s ! (n - 1))) (drop n s)"
  by (subst re_sub.simps) simp

lemma re_sub_miss:
  "match_at m prev (c # cs) = None \<Longrightarrow>
   re_sub m repl prev (c # cs) = c # re_sub m repl (Some c) cs"
  by (subst re_sub.simps) simp

text \<open>Induction along a scan: the text is empty, a match starts here, or none does.\<close>

lemma re_sub_induct [case_names Nil hit miss]:
  assumes "\<And>prev. P prev []"
    and "\<And>prev s n. match_at m prev s = Some n \<Longrightarrow> P (Some (s ! (n - 1))) (drop n s) \<Longrightarrow> P prev s"
    and "\<And>prev c cs. match_at m prev (c # cs) = None \<Longrightarrow> P (Some c) cs \<Longrightarrow> P prev (c # cs)"
  shows "P prev s"
proof (induction "length s" arbitrary: prev s rule: less_induct)
  case less
  show ?case
  proof (cases "match_at m prev s")
    case (Some n)
    then have "length (drop n s) < length s"
      by (auto dest!: match_at_SomeD)
    then show ?thesis using Some less assms(2) by blast
  next
    case None
    then show ?thesis
      using less assms(1,3) by (cases s) auto
  qed
qed

section \<open>normalize_text\<close>

lemma str_replace_Nil: "str_replace [a] new [] = []"
  by (subst str_replace.simps) simp

lemma str_replace_Cons:
  "str_replace [a] new (c # cs) =
     (if c = a then new @ str_replace [a] new cs else c # str_replace [a] new cs)"
  by (subst str_replace.simps) simp

lemma str_replace_single:
  "str_replace [a] new s = concat (map (\<lambda>c. if c = a then new else [c]) s)"
  by (induction s) (simp_all add: str_replace_Nil str_replace_Cons)

lemma normalize_text_Nil: "normalize_text [] = []"
  by (simp add: normalize_text_def str_replace_single)

lemma normalize_text_Cons: "normalize_text (c # cs) = norm_char c @ normalize_text cs"
  by (simp add: normalize_text_def norm_char_def str_replace_single str_simps)

lemma normalize_text_chars: "normalize_text t = concat (map norm_char t)"
  by (induction t) (simp_all add: normalize_text_Nil normalize_text_Cons)

lemma norm_char_fixed: "c \<in> set (norm_char x) \<Longrightarrow> norm_char c = [c]"
  by (auto simp: norm_char_def str_simps split: if_splits)

lemma concat_map_fixed: "(\<And>c. c \<in> set ys \<Longrightarrow> f c = [c]) \<Longrightarrow> concat (map f ys) = ys"
  by (induction ys) simp_all

text \<open>
  C7. \<open>normalize_text\<close> is idempotent: normalising a normalised text changes nothing,
  because none of the replacements produces a ligature or a typographic quote.
\<close>

theorem normalize_text_idempotent: "normalize_text (normalize_text t) = normalize_text t"
proof -
  have "\<And>c. c \<in> set (concat (map norm_char t)) \<Longrightarrow> norm_char c = [c]"
    by (auto dest: norm_char_fixed)
  then have "concat (map norm_char (concat (map norm_char t))) = concat (map norm_char t)"
    by (rule concat_map_fixed)
  then show ?thesis
    by (simp add: normalize_text_chars)
qed

section \<open>clean_text\<close>

lemma m_spaces_None: "m_spaces prev (c # cs) = None \<Longrightarrow> \<not> is_space c"
  by (auto simp: m_spaces_def Let_def split: if_splits)

lemma match_at_spaces: "match_at m_spaces prev s = m_spaces prev s"
  by (auto simp: match_at_def m_spaces_def Let_def length_takeWhile_le
      split: option.splits if_splits)

lemma re_sub_spaces_only_blank:
  "c \<in> set (re_sub m_spaces [32] prev s) \<Longrightarrow> is_space c \<Longrightarrow> c = 32"
proof (induction prev s rule: re_sub_induct [where m = m_spaces])
  case (Nil prev)
  then show ?case by (simp add: re_sub_Nil)
next
  case (hit prev s n)
  then show ?case by (auto simp: re_sub_hit)
next
  case (miss prev a as)
  then have "\<not> is_space a"
    by (simp add: match_at_spaces m_spaces_None)
  with miss show ?case by (auto simp: re_sub_miss)
qed

lemma set_strip: "set (strip s) \<subseteq> set s"
  by (auto simp: strip_def dest!: set_dropWhileD)

text \<open>
  C10. The output of \<open>clean_text\<close> contains no newline character (code point 10), for
  every input and every character table: the last substitution turns each whitespace
  run, newlines included, into one blank, so no paragraph break survives cleaning.
\<close>

theorem clean_text_no_newline: "10 \<notin> set (clean_text U t)"
proof
  assume "10 \<in> set (clean_text U t)"
  then obtain s where "10 \<in> set (re_sub m_spaces [32] None s)"
    using set_strip by (auto simp: clean_text_def Let_def)
  moreover have "is_space 10" by (simp add: is_space_def)
  ultimately have "(10::nat) = 32" by (rule re_sub_spaces_only_blank)
  then show False by simp
qed

section \<open>Fingerprints, change detection and tagging\<close>

lemma get_file_hash_Some:
  "file_bytes E p = Some b \<Longrightarrow> get_file_hash E p = Inr (md5_hexdigest E b)"
  by (simp add: get_file_hash_def open_rb_def read_def hashlib_md5_def update_def hexdigest_def)

lemma get_file_hash_None:
  "file_bytes E p = None \<Longrightarrow> get_file_hash E p = Inl FileAccessError"
  by (simp add: get_file_hash_def open_rb_def)

text \<open>
  C6. \<open>get_file_hash\<close> is a function of the file's whole content: for a readable file
  it returns the MD5 hex digest of all the bytes of the file, read in one piece from
  position 0, and two files with the same bytes get the same fingerprint.
\<close>

theorem get_file_hash_whole_content:
  assumes "file_bytes E p = Some b"
  shows "get_file_hash E p = Inr (md5_hexdigest E b) \<and>
         (\<forall>q. file_bytes E q = Some b \<longrightarrow> get_file_hash E q = get_file_hash E p)"
  using assms by (simp add: get_file_hash_Some)

lemma new_pdfs_loop_filter:
  assumes "\<forall>f \<in> set names. endswith (lower E f) (str ''.pdf'') \<longrightarrow>
             file_bytes E (path_join folder f) \<noteq> None"
  shows "new_pdfs_loop E folder K names acc =
         Inr (acc @ map (path_join folder) (filter (is_new_pdf E folder K) names))"
  using assms
proof (induction names arbitrary: acc)
  case Nil
  then show ?case by simp
next
  case (Cons f names)
  show ?case
  proof (cases "endswith (lower E f) (str ''.pdf'')")
    case False
    with Cons show ?thesis by (simp add: is_new_pdf_def)
  next
    case True
    with Cons.prems obtain b where b: "file_bytes E (path_join folder f) = Some b" by auto
    then have h: "get_file_hash E (path_join folder f) = Inr (md5_hexdigest E b)"
      by (rule get_file_hash_Some)
    from Cons.prems have "\<forall>f \<in> set names. endswith (lower E f) (str ''.pdf'') \<longrightarrow>
             file_bytes E (path_join folder f) \<noteq> None" by simp
    note IH = Cons.IH [OF this]
    show ?thesis
      using True h by (auto simp: is_new_pdf_def IH Let_def dom_def)
  qed
qed

text \<open>
  C1. When the folder can be listed and its PDF entries can be read, \<open>get_new_pdfs\<close>
  returns exactly the paths of the entries of the listing whose lower-cased name ends
  with \<open>.pdf\<close> and that are absent from the table of known fingerprints or whose
  fresh fingerprint differs from the recorded one. Every reported path is the path of an
  entry of the listing, so a name known to the table but absent from the folder is
  never reported.
\<close>

theorem get_new_pdfs_exact:
  assumes "listdir E folder = Some F"
    and "\<forall>f \<in> set F. endswith (lower E f) (str ''.pdf'') \<longrightarrow>
           file_bytes E (path_join folder f) \<noteq> None"
  shows "\<exists>fs. get_new_pdfs E folder K = Inr fs \<and>
           set fs = path_join folder `
             {f \<in> set F. endswith (lower E f) (str ''.pdf'') \<and>
                (f \<notin> dom K \<or>
                 (\<exists>h. get_file_hash E (path_join folder f) = Inr h \<and> K f \<noteq> Some h))}"
proof -
  have "get_new_pdfs E folder K = Inr (map (path_join folder) (filter (is_new_pdf E folder K) F))"
    using assms by (simp add: get_new_pdfs_def new_pdfs_loop_filter)
  moreover have "set (map (path_join folder) (filter (is_new_pdf E folder K) F)) =
      path_join folder `
             {f \<in> set F. endswith (lower E f) (str ''.pdf'') \<and>
                (f \<notin> dom K \<or>
                 (\<exists>h. get_file_hash E (path_join folder f) = Inr h \<and> K f \<noteq> Some h))}"
    by (auto simp: is_new_pdf_def)
  ultimately show ?thesis by blast
qed


lemma dec_1: "n < 10 \<Longrightarrow> dec n = [48 + n]"
  by (subst dec.simps) simp

lemma dec_2: "10 \<le> n \<Longrightarrow> n < 100 \<Longrightarrow> dec n = [48 + n div 10, 48 + n mod 10]"
  by (subst dec.simps) (simp add: dec_1)

lemma dec_3: "100 \<le> n \<Longrightarrow> n < 1000 \<Longrightarrow>
    dec n = [48 + n div 100, 48 + n div 10 mod 10, 48 + n mod 10]"
  by (subst dec.simps) (simp add: dec_2 div_mult2_eq [symmetric])

lemma format_03d_small:
  assumes "n < 1000"
  shows "format_03d n = [48 + n div 100, 48 + n div 10 mod 10, 48 + n mod 10]"
proof -
  consider "n < 10" | "10 \<le> n" "n < 100" | "100 \<le> n" using assms by linarith
  then show ?thesis
  proof cases
    case 1
    then show ?thesis by (simp add: format_03d_def dec_1 numeral_3_eq_3)
  next
    case 2
    then show ?thesis by (simp add: format_03d_def dec_2 numeral_3_eq_3)
  next
    case 3
    then show ?thesis using assms by (simp add: format_03d_def dec_3)
  qed
qed

lemma divmod_less:
  fixes i j k :: nat
  assumes "i < j"
  shows "i div k < j div k \<or> (i div k = j div k \<and> i mod k < j mod k)"
proof (cases "i div k = j div k")
  case True
  have "i = i div k * k + i mod k" "j = j div k * k + j mod k" by simp_all
  with True assms have "i mod k < j mod k" by (metis nat_add_left_cancel_less)
  with True show ?thesis by simp
next
  case False
  moreover have "i div k \<le> j div k" using assms by (simp add: div_le_mono)
  ultimately show ?thesis by simp
qed

lemma tens_digit: "(n::nat) mod 100 div 10 = n div 10 mod 10"
proof -
  have "n mod (10 * 10) = 10 * (n div 10 mod 10) + n mod 10" by (rule mod_mult2_eq)
  then show ?thesis by simp
qed

lemma units_digit: "(n::nat) mod 100 mod 10 = n mod 10"
  by (simp add: mod_mod_cancel)

lemma format_03d_less:
  assumes "i < j" "j < 1000"
  shows "str_less (format_03d i) (format_03d j)"
proof -
  from divmod_less [OF assms(1), of 100]
  consider "i div 100 < j div 100" | "i div 100 = j div 100" "i mod 100 < j mod 100" by blast
  then have "i div 100 < j div 100 \<or> (i div 100 = j div 100 \<and>
         (i div 10 mod 10 < j div 10 mod 10 \<or>
          (i div 10 mod 10 = j div 10 mod 10 \<and> i mod 10 < j mod 10)))"
  proof cases
    case 1
    then show ?thesis by simp
  next
    case 2
    from divmod_less [OF 2(2), of 10] 2(1) show ?thesis
      by (simp add: tens_digit units_digit)
  qed
  moreover have "i < 1000" using assms by simp
  ultimately show ?thesis
    using assms(2) by (auto simp: str_less_def format_03d_small)
qed

lemma str_less_prefix: "str_less a b \<Longrightarrow> str_less (p @ a) (p @ b)"
  by (simp add: str_less_def lexord_same_pref_iff)

lemma tag_chunks_nth:
  assumes "i < length chunks"
  shows "tag_chunks E filepath h drawn chunks ! i = tag_chunk E filepath h drawn (i, chunks ! i)"
  using assms by (simp add: tag_chunks_def nth_enumerate_eq)

text \<open>
  C8. Tagging keeps the chunks in document order and gives the chunk at zero-based
  position \<open>i\<close> the identifier made of the file's basename, an underscore and \<open>i\<close>
  padded with zeros to width 3. For at most 1000 chunks the identifiers of one file are
  in strictly increasing lexicographic order.
\<close>

theorem tag_chunks_ordinals:
  "length (tag_chunks E filepath h drawn chunks) = length chunks \<and>
   (\<forall>i < length chunks.
      page_content (tag_chunks E filepath h drawn chunks ! i) = page_content (chunks ! i) \<and>
      metadata (tag_chunks E filepath h drawn chunks ! i) ''chunk_id'' =
        Some (basename filepath @ [95] @ format_03d i) \<and>
      (i < 1000 \<longrightarrow> length (format_03d i) = 3)) \<and>
   (length chunks \<le> 1000 \<longrightarrow>
      (\<forall>i j. i < j \<and> j < length chunks \<longrightarrow>
         (\<exists>a b. metadata (tag_chunks E filepath h drawn chunks ! i) ''chunk_id'' = Some a \<and>
                metadata (tag_chunks E filepath h drawn chunks ! j) ''chunk_id'' = Some b \<and>
                str_less a b)))"
proof (intro conjI allI impI)
  show "length (tag_chunks E filepath h drawn chunks) = length chunks"
    by (simp add: tag_chunks_def)
next
  fix i assume "i < length chunks"
  then show "page_content (tag_chunks E filepath h drawn chunks ! i) = page_content (chunks ! i)"
    and "metadata (tag_chunks E filepath h drawn chunks ! i) ''chunk_id'' =
        Some (basename filepath @ [95] @ format_03d i)"
    by (simp_all add: tag_chunks_nth tag_chunk_def)
next
  fix i :: nat assume "i < 1000"
  then show "length (format_03d i) = 3" by (simp add: format_03d_small)
next
  fix i j assume n: "length chunks \<le> 1000" and ij: "i < j \<and> j < length chunks"
  then have "str_less (format_03d i) (format_03d j)"
    by (intro format_03d_less) auto
  then have "str_less (basename filepath @ [95] @ format_03d i)
                      (basename filepath @ [95] @ format_03d j)"
    using str_less_prefix [of _ _ "basename filepath @ [95]"] by simp
  with ij show "\<exists>a b. metadata (tag_chunks E filepath h drawn chunks ! i) ''chunk_id'' = Some a \<and>
                metadata (tag_chunks E filepath h drawn chunks ! j) ''chunk_id'' = Some b \<and>
                str_less a b"
    by (simp add: tag_chunks_nth tag_chunk_def)
qed

lemma path_join_eval:
  "path_join (str ''papers'') (str ''a.pdf'') = str ''papers/a.pdf''"
  "path_join (str ''papers'') (str ''B.PDF'') = str ''papers/B.PDF''"
  "path_join (str ''papers'') (str ''notes.txt'') = str ''papers/notes.txt''"
  "path_join (str ''good'') (str ''a.pdf'') = str ''good/a.pdf''"
  by (simp_all add: path_join_def str_simps)

lemma demo_suffix:
  "endswith (ascii_lower (str ''a.pdf'')) (str ''.pdf'')"
  "endswith (ascii_lower (str ''B.PDF'')) (str ''.pdf'')"
  "\<not> endswith (ascii_lower (str ''notes.txt'')) (str ''.pdf'')"
  by (simp_all add: endswith_def ascii_lower_def str_simps)

lemma demo_files_eval:
  "demo_files (str ''papers/a.pdf'') = Some ''A''"
  "demo_files (str ''papers/B.PDF'') = Some ''B''"
  "demo_files (str ''good/a.pdf'') = Some ''A''"
  by (simp_all add: demo_files_def str_simps)

theorem get_file_hash_whole_content_witness:
  "file_bytes demo_env (str ''papers/a.pdf'') = Some ''A'' \<and>
   get_file_hash demo_env (str ''papers/a.pdf'') = Inr [65] \<and>
   get_file_hash demo_env (str ''good/a.pdf'') = get_file_hash demo_env (str ''papers/a.pdf'')"
proof -
  have h: "file_bytes demo_env (str ''papers/a.pdf'') = Some ''A''"
    by (simp add: demo_env_def demo_files_eval)
  have g: "file_bytes demo_env (str ''good/a.pdf'') = Some ''A''"
    by (simp add: demo_env_def demo_files_eval)
  from get_file_hash_whole_content [OF h] h g show ?thesis
    by (simp add: demo_env_def)
qed

theorem get_new_pdfs_exact_witness:
  "listdir demo_env (str ''papers'') = Some [str ''a.pdf'', str ''B.PDF'', str ''notes.txt''] \<and>
   endswith (lower demo_env (str ''a.pdf'')) (str ''.pdf'') \<and>
   endswith (lower demo_env (str ''B.PDF'')) (str ''.pdf'') \<and>
   \<not> endswith (lower demo_env (str ''notes.txt'')) (str ''.pdf'') \<and>
   file_bytes demo_env (path_join (str ''papers'') (str ''a.pdf'')) = Some ''A'' \<and>
   file_bytes demo_env (path_join (str ''papers'') (str ''B.PDF'')) = Some ''B'' \<and>
   (\<exists>fs. get_new_pdfs demo_env (str ''papers'') [str ''a.pdf'' \<mapsto> [65]] = Inr fs \<and>
      set fs = {str ''papers/B.PDF''})"
proof -
  let ?F = "[str ''a.pdf'', str ''B.PDF'', str ''notes.txt'']"
  let ?K = "[str ''a.pdf'' \<mapsto> [65::nat]]"
  have h1: "listdir demo_env (str ''papers'') = Some ?F"
    by (simp add: demo_env_def demo_listdir_def)
  have h2: "\<forall>f \<in> set ?F. endswith (lower demo_env f) (str ''.pdf'') \<longrightarrow>
      file_bytes demo_env (path_join (str ''papers'') f) \<noteq> None"
    by (simp add: demo_env_def demo_suffix path_join_eval demo_files_eval)
  have a: "get_file_hash demo_env (str ''papers/a.pdf'') = Inr [65]"
    by (simp add: get_file_hash_Some [where b = "''A''"] demo_env_def demo_files_eval)
  have b: "get_file_hash demo_env (str ''papers/B.PDF'') = Inr [66]"
    by (simp add: get_file_hash_Some [where b = "''B''"] demo_env_def demo_files_eval)
  have ne: "str ''B.PDF'' \<noteq> str ''a.pdf''" by (simp add: str_simps)
  have l: "lower demo_env = ascii_lower" by (simp add: demo_env_def)
  have "{f \<in> set ?F. endswith (lower demo_env f) (str ''.pdf'') \<and>
              (f \<notin> dom ?K \<or>
               (\<exists>h. get_file_hash demo_env (path_join (str ''papers'') f) = Inr h \<and> ?K f \<noteq> Some h))}
        = {str ''B.PDF''}"
    using ne by (auto simp: l demo_suffix path_join_eval a b)
  with get_new_pdfs_exact [OF h1 h2, of ?K] h1 show ?thesis
    by (simp add: path_join_eval l demo_suffix) (simp add: demo_env_def demo_files_eval)
qed

theorem tag_chunks_ordinals_witness:
  "length [\<lparr> page_content = str ''x'', metadata = Map.empty \<rparr>,
           \<lparr> page_content = str ''y'', metadata = Map.empty \<rparr>] \<le> 1000 \<and>
   ((0::nat) < 1 \<and>
    1 < length [\<lparr> page_content = str ''x'', metadata = Map.empty \<rparr>,
                \<lparr> page_content = str ''y'', metadata = Map.empty \<rparr>]) \<and>
   metadata (tag_chunks demo_env (str ''papers/a.pdf'') [65] 0
      [\<lparr> page_content = str ''x'', metadata = Map.empty \<rparr>,
       \<lparr> page_content = str ''y'', metadata = Map.empty \<rparr>] ! 1) ''chunk_id'' =
     Some (str ''a.pdf_001'') \<and>
   (\<exists>a b. metadata (tag_chunks demo_env (str ''papers/a.pdf'') [65] 0
      [\<lparr> page_content = str ''x'', metadata = Map.empty \<rparr>,
       \<lparr> page_content = str ''y'', metadata = Map.empty \<rparr>] ! 0) ''chunk_id'' = Some a \<and>
     metadata (tag_chunks demo_env (str ''papers/a.pdf'') [65] 0
      [\<lparr> page_content = str ''x'', metadata = Map.empty \<rparr>,
       \<lparr> page_content = str ''y'', metadata = Map.empty \<rparr>] ! 1) ''chunk_id'' = Some b \<and>
     str_less a b)"
proof -
  let ?cs = "[\<lparr> page_content = str ''x'', metadata = Map.empty \<rparr>,
           \<lparr> page_content = str ''y'', metadata = Map.empty \<rparr>]"
  let ?p = "str ''papers/a.pdf''"
  note T = tag_chunks_ordinals [of demo_env ?p "[65]" 0 ?cs]
  have L: "length ?cs \<le> 1000" by simp
  have I: "(0::nat) < 1 \<and> 1 < length ?cs" by simp
  have "metadata (tag_chunks demo_env ?p [65] 0 ?cs ! 1) ''chunk_id'' =
          Some (basename ?p @ [95] @ format_03d 1)"
    using T [THEN conjunct2, THEN conjunct1, rule_format, of 1] by simp
  moreover have "basename ?p @ [95] @ format_03d 1 = str ''a.pdf_001''"
    by (simp add: basename_def format_03d_small str_simps)
  ultimately have m: "metadata (tag_chunks demo_env ?p [65] 0 ?cs ! 1) ''chunk_id'' =
          Some (str ''a.pdf_001'')" by simp
  have ord: "\<exists>a b. metadata (tag_chunks demo_env ?p [65] 0 ?cs ! 0) ''chunk_id'' = Some a \<and>
     metadata (tag_chunks demo_env ?p [65] 0 ?cs ! 1) ''chunk_id'' = Some b \<and> str_less a b"
    using T [THEN conjunct2, THEN conjunct2, rule_format, OF L I] .
  from L I m ord show ?thesis by blast
qed

section \<open>Evaluating the scanners on concrete texts\<close>

lemma re_split_Nil: "re_split m prev [] = [[]]"
  by (simp add: re_split.simps match_at_Nil)

lemma re_split_hit:
  "match_at m prev s = Some n \<Longrightarrow>
   re_split m prev s = [] # re_split m (Some (s ! (n - 1))) (drop n s)"
  by (subst re_split.simps) simp

lemma re_split_miss:
  "match_at m prev (c # cs) = None \<Longrightarrow>
   re_split m prev (c # cs) =
     (case re_split m (Some c) cs of [] \<Rightarrow> [[c]] | p # ps \<Rightarrow> (c # p) # ps)"
  by (subst re_split.simps) simp

lemmas scan_eval =
  re_sub_Nil re_sub_hit re_sub_miss re_split_Nil re_split_hit re_split_miss match_at_def
  m_newlines_def m_page_def m_digit_line_def m_single_newline_def m_spaces_def
  m_word_def m_references_def ci_eq_def re_fold_def word_boundary_def opt_word_def
  is_word_def is_digit_def first_def ascii_ucd_def is_space_def str_simps strip_def

section \<open>Failures during a run\<close>

lemma process_loop_fails:
  assumes "p \<in> set files" and "(\<exists>e. pdf_loader E p = Inl e) \<or> file_bytes E p = None"
  shows "\<exists>e. process_loop E files drawn acc = Inl e"
  using assms
proof (induction files arbitrary: drawn acc)
  case Nil
  then show ?case by simp
next
  case (Cons f files)
  show ?case
  proof (cases "pdf_loader E f")
    case (Inl e)
    then show ?thesis by simp
  next
    case (Inr docs)
    show ?thesis
    proof (cases "file_bytes E f")
      case None
      then show ?thesis using Inr by (simp add: get_file_hash_None)
    next
      case (Some b)
      with Inr Cons.prems have "p \<in> set files" by auto
      from Cons.IH [OF this Cons.prems(2)] show ?thesis
        using Inr Some by (simp add: get_file_hash_Some Let_def)
    qed
  qed
qed

text \<open>
  C3 (as the code behaves). The loop of \<open>process_pdfs\<close> has no exception handler: when
  the work list contains a file whose loading fails or that cannot be read, the whole call
  ends with an error, no file of the list is merged and the state is left as it was. The
  file is not skipped.
\<close>

theorem process_pdfs_aborts_on_file_failure:
  assumes "p \<in> set pdf_files"
    and "(\<exists>e. pdf_loader E p = Inl e) \<or> file_bytes E p = None"
  shows "\<exists>e. process_pdfs E pdf_files persist_dir S = (Inl e, S)"
proof -
  from process_loop_fails [OF assms] obtain e
    where "process_loop E pdf_files (uuid_drawn S) [] = Inl e" by blast
  moreover from assms(1) have "pdf_files \<noteq> []" by auto
  ultimately show ?thesis by (simp add: process_pdfs_def)
qed

lemma clean_text_Hi: "clean_text ascii_ucd (str ''Hi'') = str ''Hi''"
proof -
  have 1: "re_sub m_newlines [10] None (str ''Hi'') = str ''Hi''"
    by (simp add: scan_eval)
  have 2: "re_sub (m_page ascii_ucd) [] None (str ''Hi'') = str ''Hi''"
    by (simp add: scan_eval)
  have 3: "re_sub (m_digit_line ascii_ucd) [] None (str ''Hi'') = str ''Hi''"
    by (simp add: scan_eval)
  have 4: "re_sub m_single_newline [32] None (str ''Hi'') = str ''Hi''"
    by (simp add: scan_eval)
  have 5: "re_sub m_spaces [32] None (str ''Hi'') = str ''Hi''"
    by (simp add: scan_eval)
  have 6: "strip (str ''Hi'') = str ''Hi''"
    by (simp add: scan_eval)
  show ?thesis
    unfolding clean_text_def Let_def by (simp only: 1 2 3 4 5 6)
qed

lemma remove_references_Hi: "remove_references ascii_ucd (str ''Hi'') = str ''Hi''"
  by (simp add: remove_references_def scan_eval)

lemma clean_text_pages:
  "clean_text ascii_ucd (str ''Page Page 1 2'') = str ''Page 2''"
proof -
  have 1: "re_sub m_newlines [10] None (str ''Page Page 1 2'') = str ''Page Page 1 2''"
    by (simp add: scan_eval)
  have 2: "re_sub (m_page ascii_ucd) [] None (str ''Page Page 1 2'') = str ''Page  2''"
    by (simp add: scan_eval)
  have 3: "re_sub (m_digit_line ascii_ucd) [] None (str ''Page  2'') = str ''Page  2''"
    by (simp add: scan_eval)
  have 4: "re_sub m_single_newline [32] None (str ''Page  2'') = str ''Page  2''"
    by (simp add: scan_eval)
  have 5: "re_sub m_spaces [32] None (str ''Page  2'') = str ''Page 2''"
    by (simp add: scan_eval)
  have 6: "strip (str ''Page 2'') = str ''Page 2''"
    by (simp add: scan_eval)
  show ?thesis
    unfolding clean_text_def Let_def by (simp only: 1 2 3 4 5 6)
qed


lemma normalize_text_Hi: "normalize_text (str ''Hi'') = str ''Hi''"
  by (simp add: normalize_text_Cons normalize_text_Nil norm_char_def str_simps)

lemma demo_clean_page:
  "clean_page demo_env \<lparr> page_content = str ''Hi'', metadata = Map.empty \<rparr> =
     \<lparr> page_content = str ''Hi'', metadata = Map.empty \<rparr>"
  by (simp add: clean_page_def demo_env_def clean_text_Hi normalize_text_Hi
      remove_references_Hi)

lemma demo_hash:
  "get_file_hash demo_env (str ''papers/a.pdf'') = Inr [65]"
  "get_file_hash demo_env (str ''good/a.pdf'') = Inr [65]"
  "get_file_hash demo_env (str ''papers/B.PDF'') = Inr [66]"
  by (simp_all add: get_file_hash_Some [where b = "''A''"] get_file_hash_Some [where b = "''B''"]
      demo_env_def demo_files_eval)

lemma demo_loader_eval:
  "pdf_loader demo_env (str ''bad.pdf'') = Inl ExtractionError"
  "pdf_loader demo_env (str ''papers/a.pdf'') =
     Inr [\<lparr> page_content = str ''Hi'', metadata = Map.empty \<rparr>]"
  "pdf_loader demo_env (str ''good/a.pdf'') =
     Inr [\<lparr> page_content = str ''Hi'', metadata = Map.empty \<rparr>]"
  "pdf_loader demo_env (str ''papers/B.PDF'') = Inr []"
  by (simp_all add: demo_env_def demo_loader_def str_simps)

lemma demo_split:
  "split_documents demo_env [\<lparr> page_content = str ''Hi'', metadata = Map.empty \<rparr>] =
     [\<lparr> page_content = str ''Hi'', metadata = Map.empty \<rparr>]"
  "split_documents demo_env [] = []"
  by (simp_all add: demo_env_def str_simps)

lemma demo_loop_a:
  "\<exists>d. process_loop demo_env [str ''papers/a.pdf''] 0 [] = Inr ([d], 1)"
  by (simp add: demo_loader_eval demo_clean_page demo_split demo_hash tag_chunks_def
      enumerate_eq_zip)

text \<open>
  The claim that a failing file is skipped and the rest of the work list processed fails
  on the list \<open>[bad.pdf, papers/a.pdf]\<close>: the run ends with the loader's error and an
  unchanged state, although \<open>papers/a.pdf\<close> alone is processed into one chunk.
\<close>

theorem process_pdfs_skip_counterexample:
  "pdf_loader demo_env (str ''bad.pdf'') = Inl ExtractionError \<and>
   process_pdfs demo_env [str ''bad.pdf'', str ''papers/a.pdf''] (str ''db'') demo_state =
     (Inl ExtractionError, demo_state) \<and>
   fst (process_pdfs demo_env [str ''papers/a.pdf''] (str ''db'') demo_state) =
     Inr (RAG_updated 1)"
proof -
  obtain d where d: "process_loop demo_env [str ''papers/a.pdf''] 0 [] = Inr ([d], 1)"
    using demo_loop_a by blast
  have "fst (process_pdfs demo_env [str ''papers/a.pdf''] (str ''db'') demo_state) =
     Inr (RAG_updated 1)"
    using d by (simp add: process_pdfs_def demo_state_def Chroma_def add_documents_def
        persist_def demo_env_def Let_def)
  then show ?thesis
    by (simp add: process_pdfs_def demo_loader_eval)
qed

theorem process_pdfs_aborts_on_file_failure_witness:
  "str ''bad.pdf'' \<in> set [str ''papers/a.pdf'', str ''bad.pdf''] \<and>
   pdf_loader demo_env (str ''bad.pdf'') = Inl ExtractionError \<and>
   (\<exists>e. process_pdfs demo_env [str ''papers/a.pdf'', str ''bad.pdf''] (str ''db'') demo_state =
      (Inl e, demo_state))"
proof -
  have 1: "str ''bad.pdf'' \<in> set [str ''papers/a.pdf'', str ''bad.pdf'']" by simp
  have 2: "pdf_loader demo_env (str ''bad.pdf'') = Inl ExtractionError"
    by (rule demo_loader_eval)
  then have 3: "(\<exists>e. pdf_loader demo_env (str ''bad.pdf'') = Inl e) \<or>
      file_bytes demo_env (str ''bad.pdf'') = None" by simp
  from process_pdfs_aborts_on_file_failure [OF 1 3] 1 2 show ?thesis by blast
qed









lemma demo_new_pdfs_good_unknown:
  assumes "K (str ''a.pdf'') = None"
  shows "get_new_pdfs demo_env (str ''good'') K = Inr [str ''good/a.pdf'']"
proof -
  have "listdir demo_env (str ''good'') = Some [str ''a.pdf'']"
    by (simp add: demo_env_def demo_listdir_def str_simps)
  moreover have "lower demo_env = ascii_lower" by (simp add: demo_env_def)
  ultimately show ?thesis
    using assms by (simp add: get_new_pdfs_def demo_suffix path_join_eval demo_hash)
qed

lemma demo_new_pdfs_good:
  "get_new_pdfs demo_env (str ''good'') Map.empty = Inr [str ''good/a.pdf'']"
  using demo_new_pdfs_good_unknown [of Map.empty] by simp

lemma demo_loop_good:
  "\<exists>d. process_loop demo_env [str ''good/a.pdf''] 0 [] = Inr ([d], 1) \<and>
        page_content d = str ''Hi''"
  by (simp add: demo_loader_eval demo_clean_page demo_split demo_hash tag_chunks_def
      tag_chunk_def enumerate_eq_zip)




section \<open>remove_references\<close>

lemma re_split_not_Nil: "re_split m prev s \<noteq> []"
  by (subst re_split.simps) (simp split: option.splits list.splits)

lemma hd_re_split_hit: "match_at m prev s = Some n \<Longrightarrow> hd (re_split m prev s) = []"
  by (simp add: re_split_hit)

lemma hd_re_split_miss:
  "match_at m prev (c # cs) = None \<Longrightarrow>
   hd (re_split m prev (c # cs)) = c # hd (re_split m (Some c) cs)"
  using re_split_not_Nil [of m "Some c" cs]
  by (simp add: re_split_miss split: list.splits)

lemma ctx_Suc: "ctx prev (c # cs) (Suc k) = ctx (Some c) cs k"
  by (cases k) (simp_all add: ctx_def)

lemma hd_re_split_none:
  "(\<forall>k. match_at m (ctx prev s k) (drop k s) = None) \<Longrightarrow> hd (re_split m prev s) = s"
proof (induction s arbitrary: prev)
  case Nil
  show ?case by (simp add: re_split_Nil)
next
  case (Cons c cs)
  from Cons.prems [rule_format, of 0] have 0: "match_at m prev (c # cs) = None"
    by (simp add: ctx_def)
  have "\<forall>k. match_at m (ctx (Some c) cs k) (drop k cs) = None"
  proof
    fix k
    from Cons.prems [rule_format, of "Suc k"] show "match_at m (ctx (Some c) cs k) (drop k cs) = None"
      by (simp add: ctx_Suc)
  qed
  from Cons.IH [OF this] 0 show ?case by (simp add: hd_re_split_miss)
qed

lemma hd_re_split_first:
  "match_at m (ctx prev s i) (drop i s) \<noteq> None \<Longrightarrow>
   (\<forall>j<i. match_at m (ctx prev s j) (drop j s) = None) \<Longrightarrow>
   hd (re_split m prev s) = take i s"
proof (induction i arbitrary: prev s)
  case 0
  then show ?case by (auto simp: ctx_def hd_re_split_hit)
next
  case (Suc i)
  from Suc.prems(2) [rule_format, of 0] have 0: "match_at m prev s = None"
    by (simp add: ctx_def)
  from Suc.prems(1) have "drop (Suc i) s \<noteq> []"
    by (auto simp: match_at_Nil)
  then obtain c cs where s: "s = c # cs" by (cases s) auto
  have 1: "match_at m (ctx (Some c) cs i) (drop i cs) \<noteq> None"
    using Suc.prems(1) by (simp add: s ctx_Suc)
  have 2: "\<forall>j<i. match_at m (ctx (Some c) cs j) (drop j cs) = None"
  proof (intro allI impI)
    fix j assume "j < i"
    with Suc.prems(2) [rule_format, of "Suc j"] show "match_at m (ctx (Some c) cs j) (drop j cs) = None"
      by (simp add: s ctx_Suc)
  qed
  from Suc.IH [OF 1 2] 0 show ?case by (simp add: s hd_re_split_miss)
qed

lemma ci_prefix_length: "ci_prefix lit s \<Longrightarrow> length lit \<le> length s"
  by (induction lit s rule: ci_prefix.induct) simp_all

lemma match_at_word: "match_at (m_word U lit) prev s = m_word U lit prev s"
  by (auto simp: match_at_def m_word_def dest: ci_prefix_length split: option.splits)

lemma match_at_references: "match_at (m_references U) prev s = m_references U prev s"
proof -
  have "\<And>n. m_references U prev s = Some n \<Longrightarrow> 0 < n \<and> n \<le> length s"
    by (auto simp: m_references_def m_word_def dest: ci_prefix_length
        split: option.splits if_splits)
  then show ?thesis
    by (auto simp: match_at_def split: option.splits)
qed

lemma m_word_at:
  "m_word U lit (ctx None t i) (drop i t) = None \<longleftrightarrow> \<not> (lit \<noteq> [] \<and> word_at U lit t i)"
proof (cases "ci_prefix lit (drop i t) \<and> lit \<noteq> []")
  case True
  then have "length lit \<le> length (drop i t)" by (auto dest: ci_prefix_length)
  with True have "drop i t ! (length lit - 1) = t ! (i + length lit - 1)"
    by (cases lit) (simp_all add: nth_drop)
  then show ?thesis using True
    by (simp add: m_word_def word_at_def ctx_def char_before_def add.commute)
next
  case False
  then show ?thesis by (auto simp: m_word_def word_at_def)
qed

lemma m_references_at:
  "m_references U (ctx None t i) (drop i t) = None \<longleftrightarrow> \<not> ref_at U t i"
proof -
  have "m_references U (ctx None t i) (drop i t) = None \<longleftrightarrow>
        m_word U (str ''References'') (ctx None t i) (drop i t) = None \<and>
        m_word U (str ''Bibliography'') (ctx None t i) (drop i t) = None"
    by (auto simp: m_references_def split: option.splits)
  moreover have "str ''References'' \<noteq> []" "str ''Bibliography'' \<noteq> []"
    by (simp_all add: str_simps)
  ultimately show ?thesis
    unfolding ref_at_def m_word_at by blast
qed

lemma remove_references_hd: "remove_references U t = hd (re_split (m_references U) None t)"
  using re_split_not_Nil [of "m_references U" None t]
  by (simp add: remove_references_def split: list.splits)

text \<open>The matcher's condition against the words of the specification.\<close>

lemma re_fold_literal:
  assumes "97 \<le> l" and "l \<le> 122" and "p = l \<or> p + 32 = l"
  shows "re_fold p = l"
  using assms by (auto simp: re_fold_def)

lemma re_fold_case_forms:
  assumes "97 \<le> l" and "l \<le> 122"
  shows "re_fold c = l \<longleftrightarrow> c \<in> set (case_forms l)"
proof (cases "65 \<le> c \<and> c \<le> 90")
  case True
  then have "re_fold c = c + 32" by (simp add: re_fold_def)
  moreover from True assms have "c \<in> set (case_forms l) \<longleftrightarrow> c = l - 32"
    by (auto simp: case_forms_def)
  ultimately show ?thesis using assms True by auto
next
  case False
  then have "re_fold c = (if c = 304 \<or> c = 305 then 105 else if c = 383 then 115
      else if c = 8490 then 107 else c)"
    by (simp add: re_fold_def)
  moreover from False assms have "c \<noteq> l - 32" by auto
  ultimately show ?thesis using assms
    by (auto simp: case_forms_def)
qed

lemma ci_eq_case_forms:
  assumes "97 \<le> l" and "l \<le> 122" and "p = l \<or> p + 32 = l"
  shows "ci_eq p c \<longleftrightarrow> c \<in> set (case_forms l)"
  unfolding ci_eq_def re_fold_literal [OF assms]
  using re_fold_case_forms [OF assms(1,2), of c] by auto

lemma ci_prefix_spells:
  assumes "list_all2 (\<lambda>p l. 97 \<le> l \<and> l \<le> 122 \<and> (p = l \<or> p + 32 = l)) lit token"
  shows "ci_prefix lit s \<longleftrightarrow>
         length token \<le> length s \<and> spells token (take (length token) s)"
  using assms
proof (induction lit token arbitrary: s rule: list_all2_induct)
  case Nil
  show ?case by (simp add: spells_def)
next
  case (Cons p lit l token)
  show ?case
  proof (cases s)
    case Nil
    then show ?thesis by simp
  next
    case (Cons c cs)
    from Cons.hyps(1) have "ci_eq p c \<longleftrightarrow> c \<in> set (case_forms l)"
      by (intro ci_eq_case_forms) auto
    moreover have "ci_prefix lit cs \<longleftrightarrow>
        length token \<le> length cs \<and> spells token (take (length token) cs)"
      by (rule Cons.IH)
    ultimately show ?thesis
      using Cons by (auto simp: spells_def)
  qed
qed

lemma spells_is_word:
  assumes "letters_alnum U" and "spells token s" and "\<forall>l \<in> set token. 97 \<le> l \<and> l \<le> 122"
  shows "\<forall>c \<in> set s. is_word U c"
proof
  fix c assume "c \<in> set s"
  then obtain k where k: "k < length s" "s ! k = c" by (auto simp: in_set_conv_nth)
  from assms(2) have len: "length token = length s"
    unfolding spells_def by (rule list_all2_lengthD)
  from assms(2) k(1) have "s ! k \<in> set (case_forms (token ! k))"
    unfolding spells_def by (rule list_all2_nthD2)
  moreover from k(1) len assms(3) have "97 \<le> token ! k \<and> token ! k \<le> 122" by simp
  ultimately have "isalnum U c"
    using assms(1) k(2) by (auto simp: letters_alnum_def)
  then show "is_word U c" by (simp add: is_word_def)
qed

lemma word_at_token_at:
  assumes U: "letters_alnum U"
    and lit: "list_all2 (\<lambda>p l. 97 \<le> l \<and> l \<le> 122 \<and> (p = l \<or> p + 32 = l)) lit token"
    and ne: "lit \<noteq> []"
  shows "word_at U lit t i \<longleftrightarrow> token_at U token t i"
proof -
  let ?n = "length token"
  from lit have len: "length lit = ?n" by (rule list_all2_lengthD)
  with ne have n: "0 < ?n" by (cases lit) auto
  from lit have letters: "\<forall>l \<in> set token. 97 \<le> l \<and> l \<le> 122"
    by (auto simp: list_all2_conv_all_nth in_set_conv_nth)
  from n have "?n \<le> length t - i \<longleftrightarrow> i + ?n \<le> length t" by arith
  then have pre: "ci_prefix lit (drop i t) \<longleftrightarrow>
      i + ?n \<le> length t \<and> spells token (take ?n (drop i t))"
    by (simp add: ci_prefix_spells [OF lit])
  show ?thesis
  proof (cases "i + ?n \<le> length t \<and> spells token (take ?n (drop i t))")
    case False
    then show ?thesis by (auto simp: word_at_def token_at_def pre)
  next
    case True
    then have le: "i + ?n \<le> length t" and sp: "spells token (take ?n (drop i t))"
      by simp_all
    from spells_is_word [OF U sp letters]
    have w: "\<forall>c \<in> set (take ?n (drop i t)). is_word U c" .
    have "take ?n (drop i t) ! 0 \<in> set (take ?n (drop i t))"
      using le n by (intro nth_mem) simp
    moreover have "take ?n (drop i t) ! 0 = t ! i"
      using le n by simp
    ultimately have w0: "is_word U (t ! i)" using w by auto
    from n have e: "i + (?n - 1) = i + ?n - 1" by arith
    have "take ?n (drop i t) ! (?n - 1) \<in> set (take ?n (drop i t))"
      using le n by (intro nth_mem) simp
    moreover have "take ?n (drop i t) ! (?n - 1) = t ! (i + (?n - 1))"
      using le n by simp
    ultimately have "is_word U (t ! (i + (?n - 1)))" using w by auto
    then have w1: "is_word U (t ! (i + ?n - 1))" by (simp only: e)
    from le n have lt: "i < length t" by arith
    then have f0: "first (drop i t) = Some (t ! i)"
      by (simp add: first_def Cons_nth_drop_Suc [symmetric])
    have f1: "first (drop (i + ?n) t) =
        (if i + ?n = length t then None else Some (t ! (i + ?n)))"
    proof (cases "i + ?n = length t")
      case True
      then show ?thesis by (simp add: first_def)
    next
      case False
      with le have "i + ?n < length t" by arith
      then show ?thesis
        using False by (simp add: first_def Cons_nth_drop_Suc [symmetric])
    qed
    show ?thesis
      using True w0 w1
      by (auto simp: word_at_def token_at_def pre len f0 f1 word_boundary_def opt_word_def
          char_before_def)
  qed
qed

lemma ref_at_heading_at:
  assumes "letters_alnum U"
  shows "ref_at U t i \<longleftrightarrow> heading_at U t i"
proof -
  have "word_at U (str ''References'') t i \<longleftrightarrow> token_at U (str ''references'') t i"
    by (rule word_at_token_at [OF assms]) (simp_all add: str_simps)
  moreover
  have "word_at U (str ''Bibliography'') t i \<longleftrightarrow> token_at U (str ''bibliography'') t i"
    by (rule word_at_token_at [OF assms]) (simp_all add: str_simps)
  ultimately show ?thesis by (simp add: ref_at_def heading_at_def)
qed

lemma references_first:
  assumes "letters_alnum U"
  shows "(\<forall>i. \<not> heading_at U t i) \<Longrightarrow> remove_references U t = t"
    and "heading_at U t i \<Longrightarrow> (\<forall>j<i. \<not> heading_at U t j) \<Longrightarrow>
         remove_references U t = take i t"
proof -
  assume "\<forall>i. \<not> heading_at U t i"
  then have "\<forall>k. match_at (m_references U) (ctx None t k) (drop k t) = None"
    by (simp add: match_at_references m_references_at ref_at_heading_at [OF assms])
  then show "remove_references U t = t"
    by (simp add: remove_references_hd hd_re_split_none)
next
  assume a: "heading_at U t i" and b: "\<forall>j<i. \<not> heading_at U t j"
  from a have "match_at (m_references U) (ctx None t i) (drop i t) \<noteq> None"
    unfolding match_at_references m_references_at ref_at_heading_at [OF assms] by blast
  moreover from b have "\<forall>j<i. match_at (m_references U) (ctx None t j) (drop j t) = None"
    by (simp add: match_at_references m_references_at ref_at_heading_at [OF assms])
  ultimately show "remove_references U t = take i t"
    unfolding remove_references_hd by (rule hd_re_split_first)
qed

text \<open>
  C5. Let the character tables make every case form of a letter alphanumeric, as those
  of Python do. \<open>remove_references\<close> returns the text unchanged when neither
  \<open>References\<close> nor \<open>Bibliography\<close> occurs in it as a whole word, in whatever case, and
  otherwise the prefix of the text before the first such occurrence. An occurrence inside
  a longer word or next to an underscore does not count; one in mixed case does. On
  \<open>...body text...\nReferences\n[1] foo\<close> the result is \<open>...body text...\n\<close>.
\<close>

theorem remove_references_first_occurrence:
  assumes "letters_alnum U"
  shows "((\<forall>i. \<not> heading_at U t i) \<longrightarrow> remove_references U t = t) \<and>
         (\<forall>i. heading_at U t i \<and> (\<forall>j<i. \<not> heading_at U t j) \<longrightarrow>
              remove_references U t = take i t)"
  using references_first [OF assms] by blast

lemma all_less_list_all: "(\<forall>j<n. P j) \<longleftrightarrow> list_all P [0..<n]"
  by (auto simp: list_all_iff)

lemmas heading_eval =
  heading_at_def token_at_def spells_def case_forms_def is_word_def letters_ucd_def
  ascii_ucd_def

lemma tokens_eval:
  "str ''references'' =
     [114, 101, 102, 101, 114, 101, 110, 99, 101, 115]"
  "str ''bibliography'' =
     [98, 105, 98, 108, 105, 111, 103, 114, 97, 112, 104, 121]"
  by (simp_all add: str_simps)

lemma body_eval:
  "body_and_references =
     [46, 46, 46, 98, 111, 100, 121, 32, 116, 101, 120, 116, 46, 46, 46, 10, 82, 101, 102,
      101, 114, 101, 110, 99, 101, 115, 10, 91, 49, 93, 32, 102, 111, 111]"
  by (simp add: body_and_references_def str_simps)

lemma mixed_eval:
  "mixed_headings =
     [80, 114, 101, 102, 101, 114, 101, 110, 99, 101, 115, 32, 114, 69, 70, 69, 82, 69, 78,
      67, 69, 83, 95, 32, 66, 105, 98, 108, 105, 111, 71, 114, 97, 112, 104, 121, 58, 32,
      82, 101, 102, 101, 114, 101, 110, 99, 101, 115]"
  by (simp add: mixed_headings_def str_simps)

lemma inside_eval:
  "inside_word =
     [80, 114, 101, 102, 101, 114, 101, 110, 99, 101, 115]"
  by (simp add: inside_word_def str_simps)

lemma heading_at_beyond: "length t \<le> i \<Longrightarrow> \<not> heading_at U t i"
  by (simp add: heading_at_def token_at_def str_simps)

lemma letters_alnum_ucd: "letters_alnum letters_ucd"
  by (auto simp: letters_alnum_def case_forms_def letters_ucd_def ascii_ucd_def)

lemma upt_16: "[0..<16] = [0, 1, 2, 3, 4, 5, 6, 7, 8, 9, 10, 11, 12, 13, 14, 15 :: nat]"
  by code_simp

lemma upt_24:
  "[0..<24] = [0, 1, 2, 3, 4, 5, 6, 7, 8, 9, 10, 11, 12, 13, 14, 15, 16, 17, 18, 19, 20, 21,
     22, 23 :: nat]"
  by code_simp

lemma upt_11: "[0..<11] = [0, 1, 2, 3, 4, 5, 6, 7, 8, 9, 10 :: nat]"
  by code_simp

theorem remove_references_first_occurrence_witness:
  "letters_alnum letters_ucd \<and>
   heading_at letters_ucd body_and_references 16 \<and>
   list_all (\<lambda>j. \<not> heading_at letters_ucd body_and_references j) [0..<16] \<and>
   remove_references letters_ucd body_and_references = str ''...body text...\<newline>'' \<and>
   heading_at letters_ucd mixed_headings 24 \<and>
   list_all (\<lambda>j. \<not> heading_at letters_ucd mixed_headings j) [0..<24] \<and>
   remove_references letters_ucd mixed_headings = str ''Preferences rEFERENCES_ '' \<and>
   list_all (\<lambda>j. \<not> heading_at letters_ucd inside_word j) [0..<length inside_word] \<and>
   remove_references letters_ucd inside_word = inside_word"
proof -
  note U = letters_alnum_ucd
  have b1: "heading_at letters_ucd body_and_references 16"
    by (simp add: body_eval tokens_eval heading_eval)
  have b2: "list_all (\<lambda>j. \<not> heading_at letters_ucd body_and_references j) [0..<16]"
    unfolding upt_16 by (simp add: body_eval tokens_eval heading_eval)
  then have b3: "\<forall>j<16. \<not> heading_at letters_ucd body_and_references j"
    by (simp only: all_less_list_all)
  have b4: "take 16 body_and_references = str ''...body text...\<newline>''"
    by (simp add: body_and_references_def str_simps)
  have m1: "heading_at letters_ucd mixed_headings 24"
    by (simp add: mixed_eval tokens_eval heading_eval)
  have m2: "list_all (\<lambda>j. \<not> heading_at letters_ucd mixed_headings j) [0..<24]"
    unfolding upt_24 by (simp add: mixed_eval tokens_eval heading_eval)
  then have m3: "\<forall>j<24. \<not> heading_at letters_ucd mixed_headings j"
    by (simp only: all_less_list_all)
  have m4: "take 24 mixed_headings = str ''Preferences rEFERENCES_ ''"
    by (simp add: mixed_headings_def str_simps)
  have len: "length inside_word = 11" by (simp add: inside_word_def str_simps)
  have w2: "list_all (\<lambda>j. \<not> heading_at letters_ucd inside_word j) [0..<length inside_word]"
    unfolding len upt_11 by (simp add: inside_eval tokens_eval heading_eval)
  have w3: "\<forall>i. \<not> heading_at letters_ucd inside_word i"
  proof
    fix i
    show "\<not> heading_at letters_ucd inside_word i"
    proof (cases "i < length inside_word")
      case True
      from w2 have "\<forall>j<length inside_word. \<not> heading_at letters_ucd inside_word j"
        by (simp only: all_less_list_all)
      with True show ?thesis by blast
    next
      case False
      then show ?thesis by (simp add: heading_at_beyond)
    qed
  qed
  note B = remove_references_first_occurrence [OF U, of body_and_references]
  note M = remove_references_first_occurrence [OF U, of mixed_headings]
  note W = remove_references_first_occurrence [OF U, of inside_word]
  from B [THEN conjunct2, rule_format, of 16] b1 b3
  have "remove_references letters_ucd body_and_references = take 16 body_and_references"
    by blast
  moreover from M [THEN conjunct2, rule_format, of 24] m1 m3
  have "remove_references letters_ucd mixed_headings = take 24 mixed_headings" by blast
  moreover from W [THEN conjunct1] w3
  have "remove_references letters_ucd inside_word = inside_word" by blast
  ultimately show ?thesis using U b1 b2 b4 m1 m2 m4 w2 by simp
qed

section \<open>Two runs on an unchanged folder\<close>

lemma basename_path_join:
  assumes "47 \<notin> set f"
  shows "basename (path_join folder f) = f"
proof -
  have f: "takeWhile (\<lambda>c. c \<noteq> 47) (rev f @ ys) = rev f @ takeWhile (\<lambda>c. c \<noteq> 47) ys" for ys
    using assms by (intro takeWhile_append2) auto
  have pj: "path_join folder f =
      (if folder = [] \<or> last folder = 47 then folder @ f else folder @ [47] @ f)"
    using assms by (cases f) (auto simp: path_join_def)
  show ?thesis
  proof (cases "folder = [] \<or> last folder = 47")
    case True
    then have "takeWhile (\<lambda>c. c \<noteq> 47) (rev folder) = []"
      by (cases folder rule: rev_cases) auto
    with True show ?thesis by (simp add: basename_def pj f)
  next
    case False
    then show ?thesis by (simp add: basename_def pj f)
  qed
qed

lemma existing_loop_append:
  "existing_loop (xs @ ys) K = existing_loop ys (existing_loop xs K)"
  by (induction xs arbitrary: K) (simp_all split: option.splits)

lemma existing_loop_tagged:
  assumes "\<forall>meta \<in> set metas. \<exists>p h. meta ''source'' = Some p \<and> meta ''hash'' = Some h \<and>
             G (basename p) h"
  shows "(k \<in> source_names metas \<longrightarrow> (\<exists>h. existing_loop metas K k = Some h \<and> G k h)) \<and>
         (k \<notin> source_names metas \<longrightarrow> existing_loop metas K k = K k)"
  using assms
proof (induction metas arbitrary: K)
  case Nil
  show ?case by (simp add: source_names_def)
next
  case (Cons m ms)
  from Cons.prems obtain p h where m: "m ''source'' = Some p" "m ''hash'' = Some h"
    and g: "G (basename p) h" by auto
  from Cons.prems have "\<forall>meta \<in> set ms. \<exists>p h. meta ''source'' = Some p \<and>
      meta ''hash'' = Some h \<and> G (basename p) h" by simp
  note IH = Cons.IH [OF this, of "K(basename p \<mapsto> h)"]
  have names: "source_names (m # ms) = insert (basename p) (source_names ms)"
    using m by (auto simp: source_names_def)
  show ?case
  proof (cases "k \<in> source_names ms")
    case True
    with IH obtain h' where "existing_loop ms (K(basename p \<mapsto> h)) k = Some h'" "G k h'"
      by blast
    moreover have "existing_loop (m # ms) K = existing_loop ms (K(basename p \<mapsto> h))"
      by (simp add: m)
    ultimately show ?thesis using True by (simp add: names)
  next
    case False
    with IH have "existing_loop ms (K(basename p \<mapsto> h)) k = (K(basename p \<mapsto> h)) k"
      by blast
    moreover have "existing_loop (m # ms) K = existing_loop ms (K(basename p \<mapsto> h))"
      by (simp add: m)
    ultimately show ?thesis using False g by (auto simp: names)
  qed
qed

lemma tag_chunks_meta:
  assumes "d \<in> set (tag_chunks E p h n cs)"
  shows "metadata d ''source'' = Some p \<and> metadata d ''hash'' = Some h"
  using assms by (auto simp: tag_chunks_def tag_chunk_def)

lemma tag_chunks_Nil_iff: "tag_chunks E p h n cs = [] \<longleftrightarrow> cs = []"
  by (cases cs) (simp_all add: tag_chunks_def)

lemma process_loop_docs:
  assumes "process_loop E files n acc = Inr (docs, n')"
  shows "\<exists>new. docs = acc @ new \<and>
     (\<forall>d \<in> set new. \<exists>p \<in> set files. \<exists>h. get_file_hash E p = Inr h \<and>
         metadata d ''source'' = Some p \<and> metadata d ''hash'' = Some h \<and> chunks_of E p \<noteq> []) \<and>
     (\<forall>p \<in> set files. chunks_of E p \<noteq> [] \<longrightarrow> (\<exists>d \<in> set new. metadata d ''source'' = Some p)) \<and>
     (\<forall>p \<in> set files. (\<exists>pages. pdf_loader E p = Inr pages) \<and> (\<exists>h. get_file_hash E p = Inr h))"
  using assms
proof (induction files arbitrary: n acc)
  case Nil
  then show ?case by simp
next
  case (Cons f files)
  from Cons.prems obtain pages where pages: "pdf_loader E f = Inr pages"
    by (cases "pdf_loader E f") auto
  from Cons.prems pages obtain h where h: "get_file_hash E f = Inr h"
    by (cases "get_file_hash E f") (auto simp: Let_def)
  let ?cs = "tag_chunks E f h n (chunks_of E f)"
  have c: "chunks_of E f = split_documents E (map (clean_page E) pages)"
    by (simp add: chunks_of_def pages)
  from Cons.prems have "process_loop E files (n + length ?cs) (acc @ ?cs) = Inr (docs, n')"
    by (simp add: pages h c Let_def)
  from Cons.IH [OF this] obtain new where new: "docs = (acc @ ?cs) @ new"
    and src: "\<forall>d \<in> set new. \<exists>p \<in> set files. \<exists>h. get_file_hash E p = Inr h \<and>
         metadata d ''source'' = Some p \<and> metadata d ''hash'' = Some h \<and> chunks_of E p \<noteq> []"
    and has: "\<forall>p \<in> set files. chunks_of E p \<noteq> [] \<longrightarrow> (\<exists>d \<in> set new. metadata d ''source'' = Some p)"
    and ok: "\<forall>p \<in> set files. (\<exists>pages. pdf_loader E p = Inr pages) \<and> (\<exists>h. get_file_hash E p = Inr h)"
    by blast
  have 1: "docs = acc @ (?cs @ new)" using new by simp
  have "\<forall>d \<in> set ?cs. get_file_hash E f = Inr h \<and>
         metadata d ''source'' = Some f \<and> metadata d ''hash'' = Some h \<and> chunks_of E f \<noteq> []"
  proof
    fix d assume d: "d \<in> set ?cs"
    then have "?cs \<noteq> []" by auto
    then have "chunks_of E f \<noteq> []" by (simp add: tag_chunks_Nil_iff)
    with d h show "get_file_hash E f = Inr h \<and>
         metadata d ''source'' = Some f \<and> metadata d ''hash'' = Some h \<and> chunks_of E f \<noteq> []"
      by (auto dest: tag_chunks_meta)
  qed
  with src have 2: "\<forall>d \<in> set (?cs @ new). \<exists>p \<in> set (f # files). \<exists>h. get_file_hash E p = Inr h \<and>
         metadata d ''source'' = Some p \<and> metadata d ''hash'' = Some h \<and> chunks_of E p \<noteq> []"
    by (auto simp: Ball_def Bex_def)
  have 3: "\<forall>p \<in> set (f # files). chunks_of E p \<noteq> [] \<longrightarrow>
       (\<exists>d \<in> set (?cs @ new). metadata d ''source'' = Some p)"
  proof
    fix p assume p: "p \<in> set (f # files)"
    show "chunks_of E p \<noteq> [] \<longrightarrow> (\<exists>d \<in> set (?cs @ new). metadata d ''source'' = Some p)"
    proof
      assume ne: "chunks_of E p \<noteq> []"
      show "\<exists>d \<in> set (?cs @ new). metadata d ''source'' = Some p"
      proof (cases "p = f")
        case True
        with ne have "?cs \<noteq> []" by (simp add: tag_chunks_Nil_iff)
        then obtain d where "d \<in> set ?cs" by (cases ?cs) auto
        with True show ?thesis by (auto dest: tag_chunks_meta)
      next
        case False
        with p ne has show ?thesis by auto
      qed
    qed
  qed
  have 4: "\<forall>p \<in> set (f # files). (\<exists>pages. pdf_loader E p = Inr pages) \<and>
      (\<exists>h. get_file_hash E p = Inr h)"
    using ok pages h by auto
  from 1 2 3 4 show ?case by blast
qed

lemma process_loop_no_chunks:
  assumes "\<forall>p \<in> set files. (\<exists>pages. pdf_loader E p = Inr pages) \<and>
             (\<exists>h. get_file_hash E p = Inr h) \<and> chunks_of E p = []"
  shows "process_loop E files n acc = Inr (acc, n)"
  using assms
proof (induction files arbitrary: n acc)
  case Nil
  show ?case by simp
next
  case (Cons f files)
  from Cons.prems obtain pages h where "pdf_loader E f = Inr pages" "get_file_hash E f = Inr h"
    and "chunks_of E f = []" by auto
  moreover from Cons.prems have "process_loop E files n acc = Inr (acc, n)"
    by (intro Cons.IH) simp
  ultimately show ?case
    by (simp add: chunks_of_def tag_chunks_def Let_def)
qed

lemma new_pdfs_loop_readable:
  assumes "new_pdfs_loop E folder K names acc = Inr fs"
  shows "\<forall>f \<in> set names. endswith (lower E f) (str ''.pdf'') \<longrightarrow>
           file_bytes E (path_join folder f) \<noteq> None"
  using assms
proof (induction names arbitrary: acc)
  case Nil
  show ?case by simp
next
  case (Cons f names)
  show ?case
  proof (cases "endswith (lower E f) (str ''.pdf'')")
    case False
    with Cons show ?thesis by auto
  next
    case True
    show ?thesis
    proof (cases "file_bytes E (path_join folder f)")
      case None
      with True Cons.prems show ?thesis by (simp add: get_file_hash_None)
    next
      case (Some b)
      with True Cons.prems have "\<exists>acc'. new_pdfs_loop E folder K names acc' = Inr fs"
        by (auto simp: get_file_hash_Some Let_def split: if_splits)
      with Cons.IH Some show ?thesis by auto
    qed
  qed
qed

lemma get_new_pdfs_filter:
  assumes "listdir E folder = Some F"
    and "\<forall>f \<in> set F. endswith (lower E f) (str ''.pdf'') \<longrightarrow>
           file_bytes E (path_join folder f) \<noteq> None"
  shows "get_new_pdfs E folder K = Inr (map (path_join folder) (filter (is_new_pdf E folder K) F))"
  using assms by (simp add: get_new_pdfs_def new_pdfs_loop_filter)


lemma update_rag_success:
  assumes "update_rag E folder dir S0 = (Inr out1, S1)"
  shows "\<exists>W1. get_new_pdfs E folder (load_existing_metadata S0 dir) = Inr W1 \<and>
           process_pdfs E W1 dir S0 = (Inr out1, S1)"
  using assms by (auto simp: update_rag_def split: sum.splits)

lemma process_pdfs_success:
  assumes "process_pdfs E W dir S = (Inr out, S')" and "W \<noteq> []"
  shows "\<exists>docs n. process_loop E W (uuid_drawn S) [] = Inr (docs, n) \<and>
           chroma_dirs S' = (chroma_dirs S)
             (dir \<mapsto> (case chroma_dirs S dir of None \<Rightarrow> [] | Some db \<Rightarrow> db) @
                     map (\<lambda>d. (d, embed E (page_content d))) docs)"
  using assms
  by (auto simp: process_pdfs_def Chroma_def add_documents_def persist_def Let_def
      split: sum.splits option.splits prod.splits)

lemma load_after_merge:
  assumes "chroma_dirs S' = (chroma_dirs S)
             (dir \<mapsto> (case chroma_dirs S dir of None \<Rightarrow> [] | Some db \<Rightarrow> db) @
                     map (\<lambda>d. (d, embed E (page_content d))) docs)"
  shows "load_existing_metadata S' dir =
           existing_loop (map metadata docs) (load_existing_metadata S dir)"
  using assms
  by (simp add: load_existing_metadata_def existing_loop_append comp_def split: option.splits)

lemma process_pdfs_no_chunks:
  assumes "process_loop E W (uuid_drawn S) [] = Inr ([], n)" and "chroma_dirs S dir = Some db"
  shows "chroma_dirs (snd (process_pdfs E W dir S)) = chroma_dirs S"
  using assms
  by (auto simp: process_pdfs_def Chroma_def add_documents_def persist_def Let_def
      map_upd_triv split: option.splits)


lemma is_new_pdf_cong:
  "K f = K' f \<Longrightarrow> is_new_pdf E folder K f = is_new_pdf E folder K' f"
  by (simp add: is_new_pdf_def dom_def)

text \<open>The fingerprint table after a successful run, at the names of the folder.\<close>

lemma second_detection:
  assumes W1: "get_new_pdfs E folder (load_existing_metadata S0 dir) = Inr W1"
    and pp: "process_pdfs E W1 dir S0 = (Inr out1, S1)"
    and F: "listdir E folder = Some F"
    and slash: "\<forall>f \<in> set F. 47 \<notin> set f"
    and f: "f \<in> set F"
  shows "is_new_pdf E folder (load_existing_metadata S1 dir) f \<longleftrightarrow>
         is_new_pdf E folder (load_existing_metadata S0 dir) f \<and>
         chunks_of E (path_join folder f) = []"
proof -
  let ?K0 = "load_existing_metadata S0 dir"
  let ?K1 = "load_existing_metadata S1 dir"
  let ?join = "path_join folder"
  from W1 F have "new_pdfs_loop E folder ?K0 F [] = Inr W1"
    by (simp add: get_new_pdfs_def)
  then have readable: "\<forall>f \<in> set F. endswith (lower E f) (str ''.pdf'') \<longrightarrow>
      file_bytes E (?join f) \<noteq> None"
    by (rule new_pdfs_loop_readable)
  with W1 F have W1_eq: "W1 = map ?join (filter (is_new_pdf E folder ?K0) F)"
    by (simp add: get_new_pdfs_filter)
  have base: "basename (?join g) = g" if "g \<in> set F" for g
    using that slash by (simp add: basename_path_join)
  have in_W1: "?join f \<in> set W1 \<longleftrightarrow> is_new_pdf E folder ?K0 f"
  proof
    assume "?join f \<in> set W1"
    then obtain g where g: "g \<in> set F" "is_new_pdf E folder ?K0 g" "?join f = ?join g"
      by (auto simp: W1_eq)
    have "f = basename (?join f)" using base [OF f] by simp
    also have "\<dots> = basename (?join g)" using g(3) by simp
    also have "\<dots> = g" using g(1) by (rule base)
    finally show "is_new_pdf E folder ?K0 f" using g(2) by simp
  next
    assume "is_new_pdf E folder ?K0 f"
    with f show "?join f \<in> set W1" by (auto simp: W1_eq)
  qed
  show ?thesis
  proof (cases "W1 = []")
    case True
    with pp have "S1 = S0" by (simp add: process_pdfs_def)
    moreover from True in_W1 have "\<not> is_new_pdf E folder ?K0 f" by simp
    ultimately show ?thesis by simp
  next
    case False
    from process_pdfs_success [OF pp False] obtain docs n
      where pl: "process_loop E W1 (uuid_drawn S0) [] = Inr (docs, n)"
        and S1: "chroma_dirs S1 = (chroma_dirs S0)
             (dir \<mapsto> (case chroma_dirs S0 dir of None \<Rightarrow> [] | Some db \<Rightarrow> db) @
                     map (\<lambda>d. (d, embed E (page_content d))) docs)"
      by blast
    from load_after_merge [OF S1]
    have K1: "?K1 = existing_loop (map metadata docs) ?K0" .
    from process_loop_docs [OF pl]
    have src: "\<forall>d \<in> set docs. \<exists>p \<in> set W1. \<exists>h. get_file_hash E p = Inr h \<and>
         metadata d ''source'' = Some p \<and> metadata d ''hash'' = Some h \<and> chunks_of E p \<noteq> []"
      and has: "\<forall>p \<in> set W1. chunks_of E p \<noteq> [] \<longrightarrow>
         (\<exists>d \<in> set docs. metadata d ''source'' = Some p)"
      by auto
    let ?G = "\<lambda>k h. get_file_hash E (?join k) = Inr h"
    have tagged: "\<forall>meta \<in> set (map metadata docs).
        \<exists>p h. meta ''source'' = Some p \<and> meta ''hash'' = Some h \<and> ?G (basename p) h"
    proof
      fix meta assume "meta \<in> set (map metadata docs)"
      then obtain d where d: "d \<in> set docs" "meta = metadata d" by auto
      with src obtain p h where p: "p \<in> set W1" "get_file_hash E p = Inr h"
        "metadata d ''source'' = Some p" "metadata d ''hash'' = Some h" by blast
      from p(1) obtain g where g: "g \<in> set F" "p = ?join g" by (auto simp: W1_eq)
      from base [OF g(1)] g(2) have "?join (basename p) = p" by simp
      with p d show "\<exists>p h. meta ''source'' = Some p \<and> meta ''hash'' = Some h \<and>
          ?G (basename p) h" by auto
    qed
    note EL = existing_loop_tagged [where G = ?G, OF tagged, of f ?K0]
    have names: "f \<in> source_names (map metadata docs) \<longleftrightarrow>
        is_new_pdf E folder ?K0 f \<and> chunks_of E (?join f) \<noteq> []"
    proof
      assume "f \<in> source_names (map metadata docs)"
      then obtain d p where d: "d \<in> set docs" "metadata d ''source'' = Some p" "f = basename p"
        by (auto simp: source_names_def)
      with src have p: "p \<in> set W1" "chunks_of E p \<noteq> []" by auto
      from p(1) obtain g where g: "g \<in> set F" "p = ?join g" by (auto simp: W1_eq)
      from base [OF g(1)] g(2) d(3) have "f = g" by simp
      with g p in_W1 show "is_new_pdf E folder ?K0 f \<and> chunks_of E (?join f) \<noteq> []" by simp
    next
      assume a: "is_new_pdf E folder ?K0 f \<and> chunks_of E (?join f) \<noteq> []"
      with in_W1 has obtain d where "d \<in> set docs" "metadata d ''source'' = Some (?join f)"
        by blast
      moreover have "basename (?join f) = f" using f by (rule base)
      ultimately show "f \<in> source_names (map metadata docs)"
        by (force simp: source_names_def)
    qed
    show ?thesis
    proof (cases "f \<in> source_names (map metadata docs)")
      case True
      with EL obtain h where h: "?K1 f = Some h" "get_file_hash E (?join f) = Inr h"
        by (auto simp: K1)
      then have "\<not> is_new_pdf E folder ?K1 f" by (auto simp: is_new_pdf_def)
      with True names show ?thesis by simp
    next
      case False
      with EL have "?K1 f = ?K0 f" by (simp add: K1)
      then have eq: "is_new_pdf E folder ?K1 f = is_new_pdf E folder ?K0 f"
        by (rule is_new_pdf_cong)
      from False names show ?thesis by (auto simp: eq)
    qed
  qed
qed

lemma two_runs:
  assumes run1: "update_rag E folder dir S0 = (Inr out1, S1)"
    and F: "listdir E folder = Some F"
    and slash: "\<forall>f \<in> set F. 47 \<notin> set f"
  shows "\<exists>W1. get_new_pdfs E folder (load_existing_metadata S0 dir) = Inr W1 \<and>
           get_new_pdfs E folder (load_existing_metadata S1 dir) =
             Inr (filter (\<lambda>p. chunks_of E p = []) W1) \<and>
           chroma_dirs (snd (update_rag E folder dir S1)) = chroma_dirs S1 \<and>
           ((\<forall>p \<in> set W1. chunks_of E p \<noteq> []) \<longrightarrow>
              update_rag E folder dir S1 = (Inr No_new_PDFs, S1))"
proof -
  let ?K0 = "load_existing_metadata S0 dir"
  let ?K1 = "load_existing_metadata S1 dir"
  let ?join = "path_join folder"
  let ?W2 = "\<lambda>W1. filter (\<lambda>p. chunks_of E p = []) W1"
  from update_rag_success [OF run1] obtain W1
    where W1: "get_new_pdfs E folder ?K0 = Inr W1"
      and pp: "process_pdfs E W1 dir S0 = (Inr out1, S1)" by blast
  from W1 F have "new_pdfs_loop E folder ?K0 F [] = Inr W1"
    by (simp add: get_new_pdfs_def)
  then have readable: "\<forall>f \<in> set F. endswith (lower E f) (str ''.pdf'') \<longrightarrow>
      file_bytes E (?join f) \<noteq> None"
    by (rule new_pdfs_loop_readable)
  with W1 F have W1_eq: "W1 = map ?join (filter (is_new_pdf E folder ?K0) F)"
    by (simp add: get_new_pdfs_filter)
  have "filter (is_new_pdf E folder ?K1) F =
        filter (\<lambda>f. is_new_pdf E folder ?K0 f \<and> chunks_of E (?join f) = []) F"
    by (rule filter_cong [OF refl]) (rule second_detection [OF W1 pp F slash])
  then have "map ?join (filter (is_new_pdf E folder ?K1) F) = ?W2 W1"
    by (simp add: W1_eq filter_map comp_def conj_commute)
  with F readable have W2: "get_new_pdfs E folder ?K1 = Inr (?W2 W1)"
    by (simp add: get_new_pdfs_filter)
  then have run2: "update_rag E folder dir S1 = process_pdfs E (?W2 W1) dir S1"
    by (simp add: update_rag_def)
  have same: "chroma_dirs (snd (update_rag E folder dir S1)) = chroma_dirs S1"
  proof (cases "?W2 W1 = []")
    case True
    then show ?thesis by (simp add: run2 process_pdfs_def)
  next
    case False
    then have ne: "W1 \<noteq> []" by auto
    from process_pdfs_success [OF pp ne] obtain docs n
      where pl: "process_loop E W1 (uuid_drawn S0) [] = Inr (docs, n)"
        and S1: "chroma_dirs S1 = (chroma_dirs S0)
             (dir \<mapsto> (case chroma_dirs S0 dir of None \<Rightarrow> [] | Some db \<Rightarrow> db) @
                     map (\<lambda>d. (d, embed E (page_content d))) docs)"
      by blast
    from process_loop_docs [OF pl]
    have ok: "\<forall>p \<in> set W1. (\<exists>pages. pdf_loader E p = Inr pages) \<and>
        (\<exists>h. get_file_hash E p = Inr h)" by auto
    then have "\<forall>p \<in> set (?W2 W1). (\<exists>pages. pdf_loader E p = Inr pages) \<and>
             (\<exists>h. get_file_hash E p = Inr h) \<and> chunks_of E p = []" by simp
    then have "process_loop E (?W2 W1) (uuid_drawn S1) [] = Inr ([], uuid_drawn S1)"
      by (rule process_loop_no_chunks)
    moreover from S1 have "\<exists>db. chroma_dirs S1 dir = Some db" by simp
    ultimately show ?thesis
      unfolding run2 by (auto intro: process_pdfs_no_chunks)
  qed
  have none: "(\<forall>p \<in> set W1. chunks_of E p \<noteq> []) \<longrightarrow>
      update_rag E folder dir S1 = (Inr No_new_PDFs, S1)"
  proof
    assume "\<forall>p \<in> set W1. chunks_of E p \<noteq> []"
    then have "?W2 W1 = []" by (simp add: filter_empty_conv)
    then show "update_rag E folder dir S1 = (Inr No_new_PDFs, S1)"
      by (simp add: run2 process_pdfs_def)
  qed
  from W1 W2 same none show ?thesis by blast
qed


text \<open>
  C2 (as the code behaves). Let a first run of \<open>update_rag\<close> on a folder succeed, the
  names of the folder's entries containing no slash. A second run on the unchanged folder
  merges no chunk: the persisted collections stay as the first run left them. Its work
  list consists of the files of the first work list that produced no chunk, because a
  fingerprint is persisted only as metadata of a chunk; when every file of the first
  work list produced at least one chunk, the second work list is empty and the run ends
  with "No new PDFs" without writing.
\<close>

theorem update_rag_twice:
  assumes "update_rag E folder dir S0 = (Inr out1, S1)"
    and "listdir E folder = Some F"
    and "\<forall>f \<in> set F. 47 \<notin> set f"
  shows "\<exists>W1. get_new_pdfs E folder (load_existing_metadata S0 dir) = Inr W1 \<and>
           get_new_pdfs E folder (load_existing_metadata S1 dir) =
             Inr (filter (\<lambda>p. chunks_of E p = []) W1) \<and>
           chroma_dirs (snd (update_rag E folder dir S1)) = chroma_dirs S1 \<and>
           ((\<forall>p \<in> set W1. chunks_of E p \<noteq> []) \<longrightarrow>
              update_rag E folder dir S1 = (Inr No_new_PDFs, S1))"
  using assms by (rule two_runs)

lemma demo_load_empty: "load_existing_metadata demo_state d = Map.empty"
  by (simp add: load_existing_metadata_def demo_state_def)

lemma demo_new_pdfs_papers:
  "get_new_pdfs demo_env (str ''papers'') Map.empty =
     Inr [str ''papers/a.pdf'', str ''papers/B.PDF'']"
proof -
  have "listdir demo_env (str ''papers'') =
      Some [str ''a.pdf'', str ''B.PDF'', str ''notes.txt'']"
    by (simp add: demo_env_def demo_listdir_def)
  moreover have "lower demo_env = ascii_lower" by (simp add: demo_env_def)
  ultimately show ?thesis
    by (simp add: get_new_pdfs_def demo_suffix path_join_eval demo_hash)
qed

lemma demo_chunks_of:
  "chunks_of demo_env (str ''papers/a.pdf'') \<noteq> []"
  "chunks_of demo_env (str ''good/a.pdf'') \<noteq> []"
  "chunks_of demo_env (str ''papers/B.PDF'') = []"
  by (simp_all add: chunks_of_def demo_loader_eval demo_clean_page demo_split)

lemma demo_loop_papers:
  "\<exists>d. process_loop demo_env [str ''papers/a.pdf'', str ''papers/B.PDF''] 0 [] = Inr ([d], 1)"
  by (simp add: demo_loader_eval demo_clean_page demo_split demo_hash tag_chunks_def
      enumerate_eq_zip)

lemma demo_merge_ok:
  "process_loop demo_env W (uuid_drawn S) [] = Inr (docs, n) \<Longrightarrow> W \<noteq> [] \<Longrightarrow>
   docs \<noteq> [] \<Longrightarrow>
   fst (process_pdfs demo_env W dir S) = Inr (RAG_updated (length docs))"
  by (simp add: process_pdfs_def Chroma_def add_documents_def persist_def demo_env_def
      Let_def split: option.splits prod.splits)

lemma demo_merge_empty:
  "process_loop demo_env W (uuid_drawn S) [] = Inr ([], n) \<Longrightarrow> W \<noteq> [] \<Longrightarrow>
   fst (process_pdfs demo_env W dir S) = Inl StoreError"
  by (simp add: process_pdfs_def Chroma_def add_documents_def persist_def demo_env_def
      Let_def split: option.splits prod.splits)

lemma demo_run_papers:
  "fst (update_rag demo_env (str ''papers'') (str ''db'') demo_state) = Inr (RAG_updated 1)"
proof -
  obtain d where "process_loop demo_env [str ''papers/a.pdf'', str ''papers/B.PDF'']
      (uuid_drawn demo_state) [] = Inr ([d], 1)"
    using demo_loop_papers by (auto simp: demo_state_def)
  from demo_merge_ok [OF this] show ?thesis
    by (simp add: update_rag_def demo_load_empty demo_new_pdfs_papers)
qed

lemma demo_run_good:
  "fst (update_rag demo_env (str ''good'') (str ''db'') demo_state) = Inr (RAG_updated 1)"
proof -
  obtain d where "process_loop demo_env [str ''good/a.pdf''] (uuid_drawn demo_state) [] =
      Inr ([d], 1)"
    using demo_loop_good by (auto simp: demo_state_def)
  from demo_merge_ok [OF this] show ?thesis
    by (simp add: update_rag_def demo_load_empty demo_new_pdfs_good)
qed

text \<open>
  The second work list is not always empty: in the folder \<open>papers\<close> the file \<open>B.PDF\<close>
  has no page and yields no chunk, so the first run, which persists one chunk of
  \<open>a.pdf\<close>, records no fingerprint for it. The second run detects \<open>B.PDF\<close> again and
  hands the store an empty batch, which the store refuses: the run ends with the store's
  error instead of "No new PDFs".
\<close>

theorem update_rag_second_run_counterexample:
  "fst (update_rag demo_env (str ''papers'') (str ''db'') demo_state) = Inr (RAG_updated 1) \<and>
   get_new_pdfs demo_env (str ''papers'')
     (load_existing_metadata
        (snd (update_rag demo_env (str ''papers'') (str ''db'') demo_state)) (str ''db'')) =
     Inr [str ''papers/B.PDF''] \<and>
   fst (update_rag demo_env (str ''papers'') (str ''db'')
          (snd (update_rag demo_env (str ''papers'') (str ''db'') demo_state))) =
     Inl StoreError"
proof -
  let ?S1 = "snd (update_rag demo_env (str ''papers'') (str ''db'') demo_state)"
  have run1: "update_rag demo_env (str ''papers'') (str ''db'') demo_state =
      (Inr (RAG_updated 1), ?S1)"
    using demo_run_papers by (simp add: prod_eq_iff)
  have F: "listdir demo_env (str ''papers'') =
      Some [str ''a.pdf'', str ''B.PDF'', str ''notes.txt'']"
    by (simp add: demo_env_def demo_listdir_def)
  have slash: "\<forall>f \<in> set [str ''a.pdf'', str ''B.PDF'', str ''notes.txt'']. 47 \<notin> set f"
    by (simp add: str_simps)
  from two_runs [OF run1 F slash]
  have W2: "get_new_pdfs demo_env (str ''papers'') (load_existing_metadata ?S1 (str ''db'')) =
      Inr [str ''papers/B.PDF'']"
    by (simp add: demo_load_empty demo_new_pdfs_papers demo_chunks_of)
  have "process_loop demo_env [str ''papers/B.PDF''] (uuid_drawn ?S1) [] =
      Inr ([], uuid_drawn ?S1)"
    by (rule process_loop_no_chunks) (simp add: demo_loader_eval demo_hash demo_chunks_of)
  from demo_merge_empty [OF this, of "str ''db''"]
  have "fst (process_pdfs demo_env [str ''papers/B.PDF''] (str ''db'') ?S1) =
      Inl StoreError" by simp
  moreover have "update_rag demo_env (str ''papers'') (str ''db'') ?S1 =
      process_pdfs demo_env [str ''papers/B.PDF''] (str ''db'') ?S1"
    by (subst update_rag_def) (simp add: W2)
  ultimately
  have "fst (update_rag demo_env (str ''papers'') (str ''db'') ?S1) = Inl StoreError"
    by simp
  with demo_run_papers W2 show ?thesis by simp
qed

theorem update_rag_twice_witness:
  "update_rag demo_env (str ''good'') (str ''db'') demo_state =
     (Inr (RAG_updated 1), snd (update_rag demo_env (str ''good'') (str ''db'') demo_state)) \<and>
   listdir demo_env (str ''good'') = Some [str ''a.pdf''] \<and>
   47 \<notin> set (str ''a.pdf'') \<and>
   chunks_of demo_env (str ''good/a.pdf'') \<noteq> [] \<and>
   update_rag demo_env (str ''good'') (str ''db'')
       (snd (update_rag demo_env (str ''good'') (str ''db'') demo_state)) =
     (Inr No_new_PDFs, snd (update_rag demo_env (str ''good'') (str ''db'') demo_state))"
proof -
  let ?S1 = "snd (update_rag demo_env (str ''good'') (str ''db'') demo_state)"
  have run1: "update_rag demo_env (str ''good'') (str ''db'') demo_state =
      (Inr (RAG_updated 1), ?S1)"
    using demo_run_good by (simp add: prod_eq_iff)
  have F: "listdir demo_env (str ''good'') = Some [str ''a.pdf'']"
    by (simp add: demo_env_def demo_listdir_def str_simps)
  have s: "47 \<notin> set (str ''a.pdf'')" by (simp add: str_simps)
  then have slash: "\<forall>f \<in> set [str ''a.pdf'']. 47 \<notin> set f" by simp
  from update_rag_twice [OF run1 F slash]
  have "update_rag demo_env (str ''good'') (str ''db'') ?S1 = (Inr No_new_PDFs, ?S1)"
    by (simp add: demo_load_empty demo_new_pdfs_good demo_chunks_of)
  with run1 F s demo_chunks_of(2) show ?thesis by simp
qed

section \<open>What the passes of clean_text preserve\<close>

lemma ucd_ok_digit_word: "ucd_ok U \<Longrightarrow> is_digit U c \<Longrightarrow> is_word U c"
  by (simp add: ucd_ok_def is_digit_def is_word_def)

lemma ucd_ok_space_word: "ucd_ok U \<Longrightarrow> is_space c \<Longrightarrow> \<not> is_word U c"
  by (simp add: ucd_ok_def)

lemma ucd_ok_space_digit: "ucd_ok U \<Longrightarrow> is_space c \<Longrightarrow> \<not> is_digit U c"
  by (auto dest: ucd_ok_digit_word ucd_ok_space_word)

lemma ucd_ok_ascii: "ucd_ok ascii_ucd"
  by (auto simp: ucd_ok_def ascii_ucd_def is_word_def is_space_def)

lemma is_space_10: "is_space 10" and is_space_32: "is_space 32"
  by (simp_all add: is_space_def)

text \<open>The page pattern: its head and the rest behind the four letters.\<close>

lemma m_page_iff:
  "matches (m_page U) prev s \<longleftrightarrow>
     ci_prefix (str ''Page'') s \<and> word_boundary U prev (first s) \<and> tail_ok U (drop 4 s)"
  by (auto simp: matches_def m_page_def tail_ok_def Let_def)

lemma ci_prefix_Cons:
  "ci_prefix (p # ps) s \<longleftrightarrow> (\<exists>c cs. s = c # cs \<and> ci_eq p c \<and> ci_prefix ps cs)"
  by (cases s) auto

lemma ci_prefix_page_Cons:
  "ci_prefix (str ''Page'') s \<longleftrightarrow>
     (\<exists>c1 c2 c3 c4 r. s = c1 # c2 # c3 # c4 # r \<and> ci_eq 80 c1 \<and> ci_eq 97 c2 \<and>
         ci_eq 103 c3 \<and> ci_eq 101 c4)"
proof -
  have "ci_prefix [80, 97, 103, 101] s \<longleftrightarrow>
     (\<exists>c1 c2 c3 c4 r. s = c1 # c2 # c3 # c4 # r \<and> ci_eq 80 c1 \<and> ci_eq 97 c2 \<and>
         ci_eq 103 c3 \<and> ci_eq 101 c4)"
    by (simp add: ci_prefix_Cons) blast
  then show ?thesis by (simp add: str_simps)
qed

lemma ci_letter_not_space:
  "ci_eq 80 c \<or> ci_eq 97 c \<or> ci_eq 103 c \<or> ci_eq 101 c \<Longrightarrow> \<not> is_space c"
  by (auto simp: ci_eq_def re_fold_def is_space_def split: if_splits)


lemma m_page_Nil: "\<not> matches (m_page U) prev []"
  by (simp add: m_page_iff str_simps)

lemma m_page_head: "matches (m_page U) prev (c # cs) \<Longrightarrow> ci_eq 80 c"
  by (auto simp: m_page_iff ci_prefix_page_Cons)

lemma m_page_space: "is_space c \<Longrightarrow> \<not> matches (m_page U) prev (c # cs)"
  using m_page_head [of U prev c cs] ci_letter_not_space [of c] by blast

lemma m_page_cong:
  "opt_word U p = opt_word U q \<Longrightarrow> matches (m_page U) p s = matches (m_page U) q s"
  by (simp only: m_page_iff word_boundary_def)

lemma has_page_cong:
  "opt_word U p = opt_word U q \<Longrightarrow>
   has_match (m_page U) p s = has_match (m_page U) q s"
  using m_page_cong [of U p q s] by (cases s) simp_all

lemma has_page_space_Cons:
  "is_space c \<Longrightarrow> has_match (m_page U) prev (c # cs) = has_match (m_page U) (Some c) cs"
  by (simp add: m_page_space)

lemma opt_word_space: "ucd_ok U \<Longrightarrow> is_space c \<Longrightarrow> opt_word U (Some c) = opt_word U None"
  by (simp add: opt_word_def ucd_ok_space_word)

lemma has_page_spaces:
  assumes "ucd_ok U" and "\<forall>c \<in> set w. is_space c"
  shows "has_match (m_page U) prev (w @ s) =
         has_match (m_page U) (if w = [] then prev else None) s"
  using assms(2)
proof (induction w arbitrary: prev)
  case Nil
  show ?case by simp
next
  case (Cons c w)
  then have c: "is_space c" by simp
  have "has_match (m_page U) (Some c) (w @ s) = has_match (m_page U) None s"
  proof (cases "w = []")
    case True
    have "has_match (m_page U) (Some c) s = has_match (m_page U) None s"
      by (rule has_page_cong) (rule opt_word_space [OF assms(1) c])
    then show ?thesis unfolding True by simp
  next
    case False
    with Cons show ?thesis by simp
  qed
  then show ?case by (simp add: m_page_space c)
qed

lemma has_match_append:
  "has_match m (if u = [] then prev else Some (last u)) s \<Longrightarrow> has_match m prev (u @ s)"
proof (induction u arbitrary: prev)
  case Nil
  then show ?case by simp
next
  case (Cons c u)
  then have "has_match m (if u = [] then Some c else Some (last u)) s"
    by (cases "u = []") simp_all
  from Cons.IH [OF this] show ?case by simp
qed

lemma tail_ok_Nil: "\<not> tail_ok U []"
  by (simp add: tail_ok_def)

lemma tail_ok_Cons:
  assumes "ucd_ok U"
  shows "tail_ok U (c # x) =
     (if is_space c then tail_ok U x else is_digit U c \<and> digits_end U c x)"
  by (simp add: tail_ok_def digits_end_def)

lemma digits_end_Nil: "digits_end U d [] = word_boundary U (Some d) None"
  by (simp add: digits_end_def first_def)

lemma digits_end_Cons:
  "digits_end U d (c # x) =
     (if is_digit U c then digits_end U c x else word_boundary U (Some d) (Some c))"
  by (simp add: digits_end_def first_def)

lemma tail_ok_spaces:
  "\<forall>c \<in> set w. is_space c \<Longrightarrow> tail_ok U (w @ x) = tail_ok U x"
  by (simp add: tail_ok_def dropWhile_append3 dropWhile_append2)


lemma digits_end_space:
  assumes "ucd_ok U" and "is_space c"
  shows "digits_end U d (c # x) = word_boundary U (Some d) None"
  using assms
  by (simp add: digits_end_Cons ucd_ok_space_digit word_boundary_def opt_word_space)

lemma match_at_take:
  assumes "match_at m prev s = Some n"
  shows "take n s \<noteq> []" and "last (take n s) = s ! (n - 1)" and "hd (take n s) = hd s"
proof -
  from assms have n: "0 < n" "n \<le> length s" by (auto dest: match_at_SomeD)
  then show "take n s \<noteq> []" by auto
  from n have "last (take n s) = take n s ! (length (take n s) - 1)"
    by (intro last_conv_nth) auto
  with n show "last (take n s) = s ! (n - 1)" by (simp add: min_absorb2)
  from n show "hd (take n s) = hd s" by (cases s) auto
qed

lemma ws_matcher_hd:
  assumes "ws_matcher m" and "match_at m prev s = Some n"
  shows "is_space (hd s)" and "is_space (s ! (n - 1))" and "\<forall>c \<in> set (take n s). is_space c"
proof -
  from assms show all: "\<forall>c \<in> set (take n s). is_space c" by (auto simp: ws_matcher_def)
  from match_at_take [OF assms(2)] all show "is_space (hd s)"
    by (metis hd_in_set)
  from match_at_take [OF assms(2)] all show "is_space (s ! (n - 1))"
    by (metis last_in_set)
qed

lemma re_sub_blank_head:
  assumes "re_sub m [32] p x = c # y" and "\<not> is_space c"
  shows "\<exists>cs. x = c # cs \<and> y = re_sub m [32] (Some c) cs"
proof (cases "match_at m p x")
  case (Some n)
  with assms show ?thesis by (simp add: re_sub_hit is_space_32)
next
  case None
  with assms show ?thesis by (cases x) (simp_all add: re_sub_Nil re_sub_miss)
qed

lemma blank_digits_end_pull:
  assumes "ucd_ok U" and "ws_matcher m"
  shows "digits_end U d (re_sub m [32] p x) \<Longrightarrow> digits_end U d x"
proof (induction p x arbitrary: d rule: re_sub_induct [where m = m])
  case (Nil prev)
  then show ?case by (simp add: re_sub_Nil)
next
  case (hit prev s n)
  from ws_matcher_hd(1) [OF assms(2) hit(1)] match_at_take(1) [OF hit(1)]
  obtain c cs where s: "s = c # cs" "is_space c" by (cases s) auto
  from hit(3) have "word_boundary U (Some d) None"
    by (simp add: re_sub_hit [OF hit(1)] digits_end_space [OF assms(1) is_space_32])
  then show ?case by (simp add: s digits_end_space [OF assms(1)])
next
  case (miss prev c cs)
  then show ?case by (simp add: re_sub_miss digits_end_Cons split: if_splits)
qed

lemma blank_tail_ok_pull:
  assumes "ucd_ok U" and "ws_matcher m"
  shows "tail_ok U (re_sub m [32] p x) \<Longrightarrow> tail_ok U x"
proof (induction p x rule: re_sub_induct [where m = m])
  case (Nil prev)
  then show ?case by (simp add: re_sub_Nil)
next
  case (hit prev s n)
  from hit(3) have "tail_ok U (re_sub m [32] (Some (s ! (n - 1))) (drop n s))"
    by (simp add: re_sub_hit [OF hit(1)] tail_ok_Cons [OF assms(1)] is_space_32)
  then have "tail_ok U (drop n s)" by (rule hit(2))
  then have "tail_ok U (take n s @ drop n s)"
    using ws_matcher_hd(3) [OF assms(2) hit(1)] by (simp only: tail_ok_spaces)
  then show ?case by simp
next
  case (miss prev c cs)
  then show ?case
    using blank_digits_end_pull [OF assms]
    by (auto simp: re_sub_miss tail_ok_Cons [OF assms(1)] split: if_splits)
qed

lemma blank_page_pull:
  assumes "ucd_ok U" and "ws_matcher m"
    and "matches (m_page U) q (c # re_sub m [32] (Some c) cs)"
  shows "matches (m_page U) q (c # cs)"
proof -
  from assms(3) obtain c2 c3 c4 r
    where out: "re_sub m [32] (Some c) cs = c2 # c3 # c4 # r"
      and ci: "ci_eq 80 c" "ci_eq 97 c2" "ci_eq 103 c3" "ci_eq 101 c4"
      and wb: "word_boundary U q (Some c)" and t: "tail_ok U r"
    by (auto simp: m_page_iff ci_prefix_page_Cons first_def)
  from ci have ns: "\<not> is_space c2" "\<not> is_space c3" "\<not> is_space c4"
    using ci_letter_not_space [of c2] ci_letter_not_space [of c3] ci_letter_not_space [of c4]
    by blast+
  from re_sub_blank_head [OF out ns(1)] obtain cs2
    where 2: "cs = c2 # cs2" "c3 # c4 # r = re_sub m [32] (Some c2) cs2" by blast
  from re_sub_blank_head [OF 2(2) [symmetric] ns(2)] obtain cs3
    where 3: "cs2 = c3 # cs3" "c4 # r = re_sub m [32] (Some c3) cs3" by blast
  from re_sub_blank_head [OF 3(2) [symmetric] ns(3)] obtain cs4
    where 4: "cs3 = c4 # cs4" "r = re_sub m [32] (Some c4) cs4" by blast
  from t 4(2) have "tail_ok U cs4" by (auto dest: blank_tail_ok_pull [OF assms(1,2)])
  with ci wb show ?thesis
    by (simp add: m_page_iff ci_prefix_page_Cons first_def 2 3 4)
qed

lemma blank_has_page_pull:
  assumes "ucd_ok U" and "ws_matcher m"
  shows "has_match (m_page U) q (re_sub m [32] p x) \<Longrightarrow> has_match (m_page U) q x"
proof (induction p x arbitrary: q rule: re_sub_induct [where m = m])
  case (Nil prev)
  then show ?case by (simp add: re_sub_Nil)
next
  case (hit prev s n)
  let ?p = "Some (s ! (n - 1))"
  from hit(3) have "has_match (m_page U) (Some 32) (re_sub m [32] ?p (drop n s))"
    by (simp add: re_sub_hit [OF hit(1)] m_page_space is_space_32)
  moreover have "opt_word U (Some 32) = opt_word U ?p"
    using ws_matcher_hd(2) [OF assms(2) hit(1)]
    by (simp add: opt_word_space [OF assms(1)] is_space_32)
  ultimately have "has_match (m_page U) ?p (re_sub m [32] ?p (drop n s))"
    by (simp only: has_page_cong [of U "Some 32" ?p])
  then have "has_match (m_page U) ?p (drop n s)" by (rule hit(2))
  then have "has_match (m_page U) q (take n s @ drop n s)"
    using match_at_take(1,2) [OF hit(1)] by (intro has_match_append) simp
  then show ?case by simp
next
  case (miss prev c cs)
  from miss(3) have "matches (m_page U) q (c # re_sub m [32] (Some c) cs) \<or>
      has_match (m_page U) (Some c) (re_sub m [32] (Some c) cs)"
    by (simp add: re_sub_miss [OF miss(1)])
  then show ?case
  proof
    assume "matches (m_page U) q (c # re_sub m [32] (Some c) cs)"
    then show ?thesis by (simp add: blank_page_pull [OF assms])
  next
    assume "has_match (m_page U) (Some c) (re_sub m [32] (Some c) cs)"
    then show ?thesis by (simp add: miss(2))
  qed
qed

lemma ws_matcher_single_newline: "ws_matcher m_single_newline"
  by (auto simp: ws_matcher_def match_at_def m_single_newline_def is_space_10
      split: option.splits list.splits if_splits)

lemma ws_matcher_spaces: "ws_matcher m_spaces"
proof -
  have "c \<in> set (take (length (takeWhile is_space s)) s) \<Longrightarrow> is_space c" for c s
    by (metis set_takeWhileD takeWhile_eq_take)
  then show ?thesis
    by (auto simp: ws_matcher_def match_at_def m_spaces_def Let_def
        split: option.splits if_splits)
qed


subsection \<open>strip\<close>

lemma digits_end_append_spaces:
  assumes "ucd_ok U" and "\<forall>c \<in> set w. is_space c"
  shows "digits_end U d y \<Longrightarrow> digits_end U d (y @ w)"
proof (induction y arbitrary: d)
  case Nil
  then show ?case
    using assms by (cases w) (simp_all add: digits_end_Nil digits_end_space)
next
  case (Cons c y)
  then show ?case by (simp add: digits_end_Cons split: if_splits)
qed

lemma tail_ok_append_spaces:
  assumes "ucd_ok U" and "\<forall>c \<in> set w. is_space c"
  shows "tail_ok U y \<Longrightarrow> tail_ok U (y @ w)"
proof (induction y)
  case Nil
  then show ?case by (simp add: tail_ok_Nil)
next
  case (Cons c y)
  then show ?case
    using digits_end_append_spaces [OF assms]
    by (auto simp: tail_ok_Cons [OF assms(1)] split: if_splits)
qed

lemma ci_prefix_append: "ci_prefix lit s \<Longrightarrow> ci_prefix lit (s @ w)"
  by (induction lit s rule: ci_prefix.induct) simp_all

lemma page_append_spaces:
  assumes "ucd_ok U" and "\<forall>c \<in> set w. is_space c" and "matches (m_page U) p y"
  shows "matches (m_page U) p (y @ w)"
proof -
  from assms(3) have ci: "ci_prefix (str ''Page'') y" and wb: "word_boundary U p (first y)"
    and t: "tail_ok U (drop 4 y)" by (simp_all add: m_page_iff)
  from ci have "length (str ''Page'') \<le> length y" by (rule ci_prefix_length)
  then have len: "4 \<le> length y" by (simp add: str_simps)
  then have "first (y @ w) = first y" by (cases y) (simp_all add: first_def)
  moreover from len have "drop 4 (y @ w) = drop 4 y @ w" by simp
  ultimately show ?thesis
    using ci wb tail_ok_append_spaces [OF assms(1,2) t]
    by (simp add: m_page_iff ci_prefix_append)
qed

lemma has_page_append_spaces:
  assumes "ucd_ok U" and "\<forall>c \<in> set w. is_space c"
  shows "has_match (m_page U) p y \<Longrightarrow> has_match (m_page U) p (y @ w)"
proof (induction y arbitrary: p)
  case Nil
  then show ?case by (simp add: m_page_Nil)
next
  case (Cons c y)
  then show ?case
    using page_append_spaces [OF assms, of p "c # y"] by auto
qed

lemma strip_decomp:
  "\<exists>w1 w2. x = w1 @ strip x @ w2 \<and> (\<forall>c \<in> set w1. is_space c) \<and> (\<forall>c \<in> set w2. is_space c)"
proof -
  let ?y = "dropWhile is_space x"
  have "rev ?y = takeWhile is_space (rev ?y) @ dropWhile is_space (rev ?y)" by simp
  then have "?y = strip x @ rev (takeWhile is_space (rev ?y))"
    by (metis rev_append rev_rev_ident strip_def)
  then have "x = takeWhile is_space x @ strip x @ rev (takeWhile is_space (rev ?y))"
    by (metis takeWhile_dropWhile_id)
  moreover have "\<forall>c \<in> set (takeWhile is_space x). is_space c"
    by (auto dest: set_takeWhileD)
  moreover have "\<forall>c \<in> set (rev (takeWhile is_space (rev ?y))). is_space c"
    by (auto dest: set_takeWhileD)
  ultimately show ?thesis by blast
qed

lemma strip_has_page_pull:
  assumes "ucd_ok U" and "has_match (m_page U) None (strip x)"
  shows "has_match (m_page U) None x"
proof -
  from strip_decomp obtain w1 w2 where x: "x = w1 @ strip x @ w2"
    and w: "\<forall>c \<in> set w1. is_space c" "\<forall>c \<in> set w2. is_space c" by blast
  from assms(2) have "has_match (m_page U) None (strip x @ w2)"
    by (rule has_page_append_spaces [OF assms(1) w(2)])
  then have "has_match (m_page U) None (w1 @ strip x @ w2)"
    by (simp add: has_page_spaces [OF assms(1) w(1)])
  with x show ?thesis by simp
qed


subsection \<open>The pass that deletes digit lines\<close>

lemma digit_line_not_start: "\<not> line_start prev \<Longrightarrow> m_digit_line U prev s = None"
  by (auto simp: m_digit_line_def line_start_def)

lemma digit_line_start_cong:
  "line_start p \<Longrightarrow> line_start q \<Longrightarrow> m_digit_line U p s = m_digit_line U q s"
  by (simp add: m_digit_line_def line_start_def)

text \<open>The parts of a text at a position where a digit line may start.\<close>

lemma digit_line_parts:
  "s = takeWhile is_space s @ takeWhile (is_digit U) (dropWhile is_space s) @
       takeWhile is_space (dropWhile (is_digit U) (dropWhile is_space s)) @
       dropWhile is_space (dropWhile (is_digit U) (dropWhile is_space s))"
  by simp

lemma last_newline:
  assumes "10 \<in> set w"
  shows "length (takeWhile (\<lambda>c. c \<noteq> 10) (rev w)) < length w"
    and "w ! (length w - Suc (length (takeWhile (\<lambda>c. c \<noteq> (10::nat)) (rev w)))) = 10"
proof -
  let ?j = "length (takeWhile (\<lambda>c. c \<noteq> (10::nat)) (rev w))"
  from assms have "\<exists>c \<in> set (rev w). \<not> c \<noteq> 10" by simp
  then have "takeWhile (\<lambda>c. c \<noteq> (10::nat)) (rev w) \<noteq> rev w"
    by (metis (mono_tags, lifting) set_takeWhileD)
  moreover have "?j \<le> length (rev w)" by (rule length_takeWhile_le)
  ultimately have j: "?j < length (rev w)"
    by (metis le_neq_implies_less takeWhile_eq_take take_all order_refl)
  then show "?j < length w" by simp
  from j have "\<not> (rev w ! ?j \<noteq> 10)" by (rule nth_length_takeWhile)
  moreover from j have "rev w ! ?j = w ! (length w - Suc ?j)" by (simp add: rev_nth)
  ultimately show "w ! (length w - Suc ?j) = 10" by simp
qed

lemma drop_middle:
  "k < length b \<Longrightarrow> hd (drop (length a + k) (a @ b @ c)) = b ! k"
  by (simp add: hd_append hd_drop_conv_nth)

lemma m_digit_line_parts:
  assumes "ws1 = takeWhile is_space s"
    and "ds = takeWhile (is_digit U) (dropWhile is_space s)"
    and "ws2 = takeWhile is_space (dropWhile (is_digit U) (dropWhile is_space s))"
    and "r3 = dropWhile is_space (dropWhile (is_digit U) (dropWhile is_space s))"
  shows "s = (ws1 @ ds) @ ws2 @ r3"
    and "m_digit_line U prev s =
      (if line_start prev then
         (if ds = [] then None
          else if r3 = [] then Some (length s)
          else if 10 \<in> set ws2
            then Some (length (ws1 @ ds) +
                   (length ws2 - Suc (length (takeWhile (\<lambda>c. c \<noteq> 10) (rev ws2)))))
          else None)
       else None)"
  unfolding assms by (simp_all add: m_digit_line_def Let_def line_start_def)

lemma m_digit_line_SomeD:
  assumes "m_digit_line U prev s = Some n"
  shows "line_start prev"
    and "takeWhile (is_digit U) (dropWhile is_space s) \<noteq> []"
    and "0 < n \<and> n \<le> length s"
    and "drop n s = [] \<or> hd (drop n s) = 10"
    and "dropWhile is_space (dropWhile (is_digit U) (dropWhile is_space s)) = [] \<or>
         10 \<in> set (takeWhile is_space (dropWhile (is_digit U) (dropWhile is_space s)))"
proof -
  define ws1 where "ws1 = takeWhile is_space s"
  define ds where "ds = takeWhile (is_digit U) (dropWhile is_space s)"
  define ws2 where "ws2 = takeWhile is_space (dropWhile (is_digit U) (dropWhile is_space s))"
  define r3 where "r3 = dropWhile is_space (dropWhile (is_digit U) (dropWhile is_space s))"
  define j where "j = length (takeWhile (\<lambda>c. c \<noteq> (10::nat)) (rev ws2))"
  note s = m_digit_line_parts(1) [OF ws1_def ds_def ws2_def r3_def]
  note m = m_digit_line_parts(2) [OF ws1_def ds_def ws2_def r3_def, where prev = prev]
  from assms m have ls: "line_start prev" and ds: "ds \<noteq> []"
    and c: "r3 = [] \<or> 10 \<in> set ws2"
    by (auto split: if_splits)
  from assms m ls ds have n: "n = (if r3 = [] then length s else length (ws1 @ ds) + (length ws2 - Suc j))"
    by (auto simp: j_def split: if_splits)
  from ls show "line_start prev" .
  from ds show "takeWhile (is_digit U) (dropWhile is_space s) \<noteq> []" by (simp add: ds_def)
  from c show "dropWhile is_space (dropWhile (is_digit U) (dropWhile is_space s)) = [] \<or>
         10 \<in> set (takeWhile is_space (dropWhile (is_digit U) (dropWhile is_space s)))"
    by (simp only: r3_def ws2_def)
  have len: "length s = length (ws1 @ ds) + length ws2 + length r3"
    by (subst s) simp
  from ds have pos: "0 < length (ws1 @ ds)" by simp
  show "0 < n \<and> n \<le> length s"
    using n len pos by (auto split: if_splits)
  show "drop n s = [] \<or> hd (drop n s) = 10"
  proof (cases "r3 = []")
    case True
    with n show ?thesis by simp
  next
    case False
    with c have nl: "10 \<in> set ws2" by blast
    from last_newline [OF nl] have k: "length ws2 - Suc j < length ws2"
      and at: "ws2 ! (length ws2 - Suc j) = 10" by (simp_all add: j_def)
    from False n have "n = length (ws1 @ ds) + (length ws2 - Suc j)" by simp
    then have "hd (drop n s) = hd (drop (length (ws1 @ ds) + (length ws2 - Suc j))
        ((ws1 @ ds) @ ws2 @ r3))" using s by simp
    also have "\<dots> = ws2 ! (length ws2 - Suc j)" using k by (rule drop_middle)
    finally show ?thesis using at by simp
  qed
qed

lemma match_at_digit_line: "match_at (m_digit_line U) prev s = m_digit_line U prev s"
  using m_digit_line_SomeD(3) [of U prev s]
  by (auto simp: match_at_def split: option.splits)

lemma digit_line_hit_tail_ok:
  assumes "ucd_ok U" and "m_digit_line U prev s = Some n"
  shows "tail_ok U s"
proof -
  define ds where "ds = takeWhile (is_digit U) (dropWhile is_space s)"
  define r2 where "r2 = dropWhile (is_digit U) (dropWhile is_space s)"
  from m_digit_line_SomeD(2) [OF assms(2)] have ds: "ds \<noteq> []" by (simp add: ds_def)
  then have "last ds \<in> set ds" by simp
  then have "is_digit U (last ds)" unfolding ds_def by (auto dest: set_takeWhileD)
  then have w: "opt_word U (Some (last ds))"
    by (simp add: opt_word_def ucd_ok_digit_word [OF assms(1)])
  from m_digit_line_SomeD(5) [OF assms(2)]
  have c: "dropWhile is_space r2 = [] \<or> 10 \<in> set (takeWhile is_space r2)"
    by (simp only: r2_def)
  have "\<not> opt_word U (first r2)"
  proof (cases r2)
    case Nil
    then show ?thesis by (simp add: first_def opt_word_def)
  next
    case (Cons c' r)
    have "is_space c'"
    proof (rule ccontr)
      assume "\<not> is_space c'"
      with Cons c show False by simp
    qed
    with Cons show ?thesis by (simp add: first_def opt_word_def ucd_ok_space_word [OF assms(1)])
  qed
  with ds w show ?thesis unfolding tail_ok_def word_boundary_def ds_def r2_def by blast
qed


lemma not_space_not_start: "\<not> is_space c \<Longrightarrow> \<not> line_start (Some c)"
  using is_space_10 by (auto simp: line_start_def)

lemma digit_pass_miss:
  "\<not> line_start p \<Longrightarrow>
   re_sub (m_digit_line U) [] p (c # cs) = c # re_sub (m_digit_line U) [] (Some c) cs"
  by (simp add: re_sub_miss match_at_digit_line digit_line_not_start)

lemma digit_pass_head:
  assumes "\<not> line_start p" and "re_sub (m_digit_line U) [] p x = c # y"
  shows "\<exists>cs. x = c # cs \<and> y = re_sub (m_digit_line U) [] (Some c) cs"
  using assms by (cases x) (simp_all add: re_sub_Nil digit_pass_miss)

lemma digit_pass_digits_end:
  assumes "ucd_ok U"
  shows "is_digit U d' \<Longrightarrow>
         digits_end U d (re_sub (m_digit_line U) [] (Some d') x) = digits_end U d x"
proof (induction x arbitrary: d d')
  case Nil
  show ?case by (simp add: re_sub_Nil)
next
  case (Cons c cs)
  from Cons.prems have "\<not> is_space d'" using ucd_ok_space_digit [OF assms] by blast
  then have "\<not> line_start (Some d')" by (rule not_space_not_start)
  then show ?case
    by (simp add: digit_pass_miss digits_end_Cons Cons.IH)
qed

lemma digit_pass_tail_ok_pull:
  assumes "ucd_ok U"
  shows "tail_ok U (re_sub (m_digit_line U) [] p x) \<Longrightarrow> tail_ok U x"
proof (induction p x rule: re_sub_induct [where m = "m_digit_line U"])
  case (Nil prev)
  then show ?case by (simp add: re_sub_Nil)
next
  case (hit prev s n)
  from hit(1) have "m_digit_line U prev s = Some n" by (simp add: match_at_digit_line)
  then show ?case by (rule digit_line_hit_tail_ok [OF assms])
next
  case (miss prev c cs)
  then show ?case
    by (auto simp: re_sub_miss tail_ok_Cons [OF assms] digit_pass_digits_end [OF assms]
        split: if_splits)
qed

lemma digit_pass_page_pull:
  assumes "ucd_ok U"
    and "matches (m_page U) q (c # re_sub (m_digit_line U) [] (Some c) cs)"
  shows "matches (m_page U) q (c # cs)"
proof -
  let ?R = "re_sub (m_digit_line U) []"
  from assms(2) obtain c2 c3 c4 r
    where out: "?R (Some c) cs = c2 # c3 # c4 # r"
      and ci: "ci_eq 80 c" "ci_eq 97 c2" "ci_eq 103 c3" "ci_eq 101 c4"
      and wb: "word_boundary U q (Some c)" and t: "tail_ok U r"
    by (auto simp: m_page_iff ci_prefix_page_Cons first_def)
  from ci have "\<not> is_space c" "\<not> is_space c2" "\<not> is_space c3" "\<not> is_space c4"
    using ci_letter_not_space [of c] ci_letter_not_space [of c2] ci_letter_not_space [of c3]
      ci_letter_not_space [of c4] by blast+
  then have ns: "\<not> line_start (Some c)" "\<not> line_start (Some c2)" "\<not> line_start (Some c3)"
    by (simp_all add: not_space_not_start)
  from digit_pass_head [OF ns(1) out] obtain cs2
    where 2: "cs = c2 # cs2" "c3 # c4 # r = ?R (Some c2) cs2" by blast
  from digit_pass_head [OF ns(2) 2(2) [symmetric]] obtain cs3
    where 3: "cs2 = c3 # cs3" "c4 # r = ?R (Some c3) cs3" by blast
  from digit_pass_head [OF ns(3) 3(2) [symmetric]] obtain cs4
    where 4: "cs3 = c4 # cs4" "r = ?R (Some c4) cs4" by blast
  from t 4(2) have "tail_ok U cs4" by (auto dest: digit_pass_tail_ok_pull [OF assms(1)])
  with ci wb show ?thesis
    by (simp add: m_page_iff ci_prefix_page_Cons first_def 2 3 4)
qed

lemma digit_pass_newline_head:
  "x = [] \<or> hd x = 10 \<Longrightarrow>
   re_sub (m_digit_line U) [] p x = [] \<or> hd (re_sub (m_digit_line U) [] p x) = 10"
proof (induction p x rule: re_sub_induct [where m = "m_digit_line U"])
  case (Nil prev)
  show ?case by (simp add: re_sub_Nil)
next
  case (hit prev s n)
  from hit(1) have "m_digit_line U prev s = Some n" by (simp add: match_at_digit_line)
  from m_digit_line_SomeD(4) [OF this] hit(2) show ?case
    by (simp add: re_sub_hit [OF hit(1)])
next
  case (miss prev c cs)
  then show ?case by (simp add: re_sub_miss)
qed

lemma has_page_newline_head:
  assumes "y = [] \<or> hd y = 10"
  shows "has_match (m_page U) q y = has_match (m_page U) q' y"
proof (cases y)
  case Nil
  then show ?thesis by (simp add: m_page_Nil)
next
  case (Cons c cs)
  with assms have "is_space c" by (simp add: is_space_10)
  with Cons show ?thesis by (simp add: m_page_space)
qed

lemma digit_pass_has_page_pull:
  assumes "ucd_ok U"
  shows "has_match (m_page U) q (re_sub (m_digit_line U) [] p x) \<Longrightarrow>
         has_match (m_page U) q x"
proof (induction p x arbitrary: q rule: re_sub_induct [where m = "m_digit_line U"])
  case (Nil prev)
  then show ?case by (simp add: re_sub_Nil)
next
  case (hit prev s n)
  let ?p = "Some (s ! (n - 1))"
  let ?out = "re_sub (m_digit_line U) [] ?p (drop n s)"
  from hit(1) have "m_digit_line U prev s = Some n" by (simp add: match_at_digit_line)
  from m_digit_line_SomeD(4) [OF this] have "?out = [] \<or> hd ?out = 10"
    by (rule digit_pass_newline_head)
  then have "has_match (m_page U) q ?out = has_match (m_page U) ?p ?out"
    by (rule has_page_newline_head)
  with hit(3) have "has_match (m_page U) ?p ?out"
    by (simp add: re_sub_hit [OF hit(1)])
  then have "has_match (m_page U) ?p (drop n s)" by (rule hit(2))
  then have "has_match (m_page U) q (take n s @ drop n s)"
    using match_at_take(1,2) [OF hit(1)] by (intro has_match_append) simp
  then show ?case by simp
next
  case (miss prev c cs)
  from miss(3) have "matches (m_page U) q (c # re_sub (m_digit_line U) [] (Some c) cs) \<or>
      has_match (m_page U) (Some c) (re_sub (m_digit_line U) [] (Some c) cs)"
    by (simp add: re_sub_miss [OF miss(1)])
  then show ?case
  proof
    assume "matches (m_page U) q (c # re_sub (m_digit_line U) [] (Some c) cs)"
    then show ?thesis by (simp add: digit_pass_page_pull [OF assms])
  next
    assume "has_match (m_page U) (Some c) (re_sub (m_digit_line U) [] (Some c) cs)"
    then show ?thesis by (simp add: miss(2))
  qed
qed

text \<open>No pass after the deletion of page numbers creates an occurrence of the pattern.\<close>

lemma clean_text_page_pull:
  assumes "ucd_ok U" and "has_match (m_page U) None (clean_text U t)"
  shows "has_match (m_page U) None
           (re_sub (m_page U) [] None (re_sub m_newlines [10] None t))"
proof -
  let ?t2 = "re_sub (m_page U) [] None (re_sub m_newlines [10] None t)"
  let ?t3 = "re_sub (m_digit_line U) [] None ?t2"
  let ?t4 = "re_sub m_single_newline [32] None ?t3"
  let ?t5 = "re_sub m_spaces [32] None ?t4"
  from assms(2) have "has_match (m_page U) None (strip ?t5)"
    by (simp add: clean_text_def Let_def)
  then have "has_match (m_page U) None ?t5" by (rule strip_has_page_pull [OF assms(1)])
  then have "has_match (m_page U) None ?t4"
    by (rule blank_has_page_pull [OF assms(1) ws_matcher_spaces])
  then have "has_match (m_page U) None ?t3"
    by (rule blank_has_page_pull [OF assms(1) ws_matcher_single_newline])
  then show "has_match (m_page U) None ?t2"
    by (rule digit_pass_has_page_pull [OF assms(1)])
qed


subsection \<open>Lines of digits\<close>

lemma digit_line_Nil: "\<not> digit_line U []"
  by (simp add: digit_line_def)

lemma digit_line_Cons:
  "digit_line U (c # x) =
     (if is_space c then digit_line U x else is_digit U c \<and> digits_rest U x)"
  by (simp add: digit_line_def digits_rest_def)

lemma digits_rest_Cons:
  "digits_rest U (c # x) =
     (if is_digit U c then digits_rest U x else is_space c \<and> (\<forall>a \<in> set x. is_space a))"
  by (simp add: digits_rest_def)

lemma digits_rest_Nil: "digits_rest U []"
  by (simp add: digits_rest_def)

lemma all_space_digits_rest:
  assumes "ucd_ok U" and "\<forall>a \<in> set x. is_space a"
  shows "digits_rest U x"
proof (cases x)
  case Nil
  then show ?thesis by (simp add: digits_rest_Nil)
next
  case (Cons c cs)
  with assms show ?thesis
    by (simp add: digits_rest_Cons ucd_ok_space_digit)
qed

lemma digit_line_spaces:
  "\<forall>c \<in> set w. is_space c \<Longrightarrow> digit_line U (w @ x) = digit_line U x"
  by (induction w) (simp_all add: digit_line_Cons)

lemma all_take_drop:
  assumes "\<forall>a \<in> set (take n s). P a" and "\<forall>a \<in> set (drop n s). P a"
  shows "\<forall>a \<in> set s. P a"
proof -
  have "set s = set (take n s) \<union> set (drop n s)"
    by (metis append_take_drop_id set_append)
  with assms show ?thesis by auto
qed

lemma blank_all_space_pull:
  assumes "ws_matcher m"
  shows "\<forall>a \<in> set (re_sub m [32] p x). is_space a \<Longrightarrow> \<forall>a \<in> set x. is_space a"
proof (induction p x rule: re_sub_induct [where m = m])
  case (Nil prev)
  show ?case by simp
next
  case (hit prev s n)
  from hit(3) have "\<forall>a \<in> set (drop n s). is_space a"
    by (intro hit(2)) (simp add: re_sub_hit [OF hit(1)])
  with ws_matcher_hd(3) [OF assms hit(1)] show ?case by (rule all_take_drop)
next
  case (miss prev c cs)
  then show ?case by (simp add: re_sub_miss)
qed

lemma blank_digits_rest_pull:
  assumes "ucd_ok U" and "ws_matcher m"
  shows "digits_rest U (re_sub m [32] p x) \<Longrightarrow> digits_rest U x"
proof (induction p x rule: re_sub_induct [where m = m])
  case (Nil prev)
  show ?case by (simp add: digits_rest_Nil)
next
  case (hit prev s n)
  have "\<not> is_digit U 32" using ucd_ok_space_digit [OF assms(1) is_space_32] .
  with hit(3) have "\<forall>a \<in> set (re_sub m [32] (Some (s ! (n - 1))) (drop n s)). is_space a"
    by (simp add: re_sub_hit [OF hit(1)] digits_rest_Cons)
  then have "\<forall>a \<in> set (drop n s). is_space a" by (rule blank_all_space_pull [OF assms(2)])
  with ws_matcher_hd(3) [OF assms(2) hit(1)] have "\<forall>a \<in> set s. is_space a"
    by (rule all_take_drop)
  then show ?case by (rule all_space_digits_rest [OF assms(1)])
next
  case (miss prev c cs)
  then show ?case
    using blank_all_space_pull [OF assms(2), of "Some c" cs]
    by (auto simp: re_sub_miss digits_rest_Cons split: if_splits)
qed

lemma blank_digit_line_pull:
  assumes "ucd_ok U" and "ws_matcher m"
  shows "digit_line U (re_sub m [32] p x) \<Longrightarrow> digit_line U x"
proof (induction p x rule: re_sub_induct [where m = m])
  case (Nil prev)
  then show ?case by (simp add: re_sub_Nil)
next
  case (hit prev s n)
  from hit(3) have "digit_line U (re_sub m [32] (Some (s ! (n - 1))) (drop n s))"
    by (simp add: re_sub_hit [OF hit(1)] digit_line_Cons is_space_32)
  then have "digit_line U (drop n s)" by (rule hit(2))
  then have "digit_line U (take n s @ drop n s)"
    using ws_matcher_hd(3) [OF assms(2) hit(1)] by (simp only: digit_line_spaces)
  then show ?case by simp
next
  case (miss prev c cs)
  then show ?case
    using blank_digits_rest_pull [OF assms, of "Some c" cs]
    by (auto simp: re_sub_miss digit_line_Cons split: if_splits)
qed

lemma digits_rest_append_spaces:
  assumes "\<forall>c \<in> set w. is_space c"
  shows "digits_rest U y \<Longrightarrow> digits_rest U (y @ w)"
proof (induction y)
  case Nil
  have "dropWhile is_space (dropWhile (is_digit U) w) = []"
    using assms by (auto dest!: set_dropWhileD)
  then show ?case by (simp add: digits_rest_def)
next
  case (Cons c y)
  then show ?case using assms by (auto simp: digits_rest_Cons split: if_splits)
qed

lemma digit_line_append_spaces:
  assumes "\<forall>c \<in> set w. is_space c"
  shows "digit_line U y \<Longrightarrow> digit_line U (y @ w)"
proof (induction y)
  case Nil
  then show ?case by (simp add: digit_line_Nil)
next
  case (Cons c y)
  then show ?case
    using digits_rest_append_spaces [OF assms]
    by (auto simp: digit_line_Cons split: if_splits)
qed

lemma strip_digit_line_pull:
  assumes "digit_line U (strip x)"
  shows "digit_line U x"
proof -
  from strip_decomp obtain w1 w2 where x: "x = w1 @ strip x @ w2"
    and w: "\<forall>c \<in> set w1. is_space c" "\<forall>c \<in> set w2. is_space c" by blast
  from assms have "digit_line U (strip x @ w2)" by (rule digit_line_append_spaces [OF w(2)])
  then have "digit_line U (w1 @ strip x @ w2)" by (simp only: digit_line_spaces [OF w(1)])
  with x show ?thesis by simp
qed

section \<open>The output of clean_text\<close>

lemma digit_line_space_None:
  "is_space c \<Longrightarrow>
   (m_digit_line U None (c # cs) = None) = (m_digit_line U None cs = None)"
  by (simp add: m_digit_line_def Let_def)

lemma digit_pass_not_all_space:
  assumes "\<not> line_start p" and "dropWhile is_space x \<noteq> []"
    and "10 \<notin> set (takeWhile is_space x)"
  shows "\<not> (\<forall>a \<in> set (re_sub (m_digit_line U) [] p x). is_space a)"
  using assms
proof (induction x arbitrary: p)
  case Nil
  then show ?case by simp
next
  case (Cons c cs)
  show ?case
  proof (cases "is_space c")
    case False
    with Cons.prems(1) show ?thesis by (simp add: digit_pass_miss)
  next
    case True
    with Cons.prems have "c \<noteq> 10" "dropWhile is_space cs \<noteq> []"
      "10 \<notin> set (takeWhile is_space cs)" by auto
    moreover from \<open>c \<noteq> 10\<close> have "\<not> line_start (Some c)" by (simp add: line_start_def)
    ultimately have "\<not> (\<forall>a \<in> set (re_sub (m_digit_line U) [] (Some c) cs). is_space a)"
      by (intro Cons.IH)
    with Cons.prems(1) show ?thesis by (simp add: digit_pass_miss)
  qed
qed

lemma digit_pass_not_digits_rest:
  assumes "ucd_ok U" and "is_digit U d"
    and "dropWhile is_space (dropWhile (is_digit U) x) \<noteq> []"
    and "10 \<notin> set (takeWhile is_space (dropWhile (is_digit U) x))"
  shows "\<not> digits_rest U (re_sub (m_digit_line U) [] (Some d) x)"
  using assms(2-)
proof (induction x arbitrary: d)
  case Nil
  then show ?case by simp
next
  case (Cons c cs)
  from Cons.prems(1) have "\<not> is_space d" using ucd_ok_space_digit [OF assms(1)] by blast
  then have ns: "\<not> line_start (Some d)" by (rule not_space_not_start)
  show ?case
  proof (cases "is_digit U c")
    case True
    with Cons.prems have "\<not> digits_rest U (re_sub (m_digit_line U) [] (Some c) cs)"
      by (intro Cons.IH) simp_all
    with True ns show ?thesis by (simp add: digit_pass_miss digits_rest_Cons)
  next
    case False
    with Cons.prems have "dropWhile is_space (c # cs) \<noteq> []"
      "10 \<notin> set (takeWhile is_space (c # cs))" by simp_all
    from digit_pass_not_all_space [OF ns this]
    have "\<not> (\<forall>a \<in> set (c # re_sub (m_digit_line U) [] (Some c) cs). is_space a)"
      using ns by (simp add: digit_pass_miss)
    with False ns show ?thesis by (simp add: digit_pass_miss digits_rest_Cons)
  qed
qed

lemma digit_pass_no_digit_line:
  assumes "ucd_ok U"
  shows "line_start p \<or> (x \<noteq> [] \<and> hd x = 10) \<or> m_digit_line U None x = None \<Longrightarrow>
         \<not> digit_line U (re_sub (m_digit_line U) [] p x)"
proof (induction p x rule: re_sub_induct [where m = "m_digit_line U"])
  case (Nil prev)
  show ?case by (simp add: re_sub_Nil digit_line_Nil)
next
  case (hit prev s n)
  from hit(1) have "m_digit_line U prev s = Some n" by (simp add: match_at_digit_line)
  from m_digit_line_SomeD(4) [OF this]
  have "(drop n s \<noteq> [] \<and> hd (drop n s) = 10) \<or> m_digit_line U None (drop n s) = None"
    by (auto simp: m_digit_line_def)
  then have "\<not> digit_line U (re_sub (m_digit_line U) [] (Some (s ! (n - 1))) (drop n s))"
    by (intro hit(2)) blast
  then show ?case by (simp add: re_sub_hit [OF hit(1)])
next
  case (miss prev c cs)
  let ?out = "re_sub (m_digit_line U) [] (Some c) cs"
  from miss(1) have none: "m_digit_line U prev (c # cs) = None"
    by (simp add: match_at_digit_line)
  have out: "re_sub (m_digit_line U) [] prev (c # cs) = c # ?out"
    by (rule re_sub_miss [OF miss(1)])
  show ?case
  proof (cases "c = 10")
    case True
    have "\<not> digit_line U ?out" by (rule miss(2)) (simp add: True line_start_def)
    then show ?thesis unfolding out by (simp add: digit_line_Cons True is_space_10)
  next
    case False
    with miss(3) none have V: "m_digit_line U None (c # cs) = None"
      using digit_line_start_cong [of prev None U "c # cs"] by (auto simp: line_start_def)
    show ?thesis
    proof (cases "is_space c")
      case True
      with V have "m_digit_line U None cs = None" by (simp add: digit_line_space_None)
      then have "\<not> digit_line U ?out" by (intro miss(2)) simp
      with True show ?thesis by (simp add: out digit_line_Cons)
    next
      case ns: False
      show ?thesis
      proof (cases "is_digit U c")
        case False
        with ns show ?thesis by (simp add: out digit_line_Cons)
      next
        case True
        from V ns True have "dropWhile is_space (dropWhile (is_digit U) cs) \<noteq> []"
          and "10 \<notin> set (takeWhile is_space (dropWhile (is_digit U) cs))"
          by (auto simp: m_digit_line_def Let_def line_start_def split: if_splits)
        from digit_pass_not_digits_rest [OF assms True this]
        show ?thesis using ns by (simp add: out digit_line_Cons)
      qed
    qed
  qed
qed


subsection \<open>The cleaned text\<close>

lemma no_later_digit_line:
  "10 \<notin> set y \<Longrightarrow> \<not> line_start p \<Longrightarrow> \<not> has_match (m_digit_line U) p y"
proof (induction y arbitrary: p)
  case Nil
  then show ?case by (simp add: matches_def digit_line_not_start)
next
  case (Cons c cs)
  then have "\<not> line_start (Some c)" by (auto simp: line_start_def)
  with Cons show ?case by (simp add: matches_def digit_line_not_start)
qed

lemma digit_line_match_whole:
  assumes "10 \<notin> set y" and "has_match (m_digit_line U) None y"
  shows "digit_line U y"
proof -
  have "matches (m_digit_line U) None y"
  proof (cases y)
    case Nil
    with assms(2) show ?thesis by simp
  next
    case (Cons c cs)
    with assms(1) have "\<not> has_match (m_digit_line U) (Some c) cs"
      by (intro no_later_digit_line) (auto simp: line_start_def)
    with assms(2) Cons show ?thesis by simp
  qed
  then obtain n where n: "m_digit_line U None y = Some n" by (auto simp: matches_def)
  have "set (takeWhile is_space (dropWhile (is_digit U) (dropWhile is_space y))) \<subseteq> set y"
    by (auto dest!: set_takeWhileD set_dropWhileD)
  with assms(1) have "10 \<notin> set (takeWhile is_space (dropWhile (is_digit U) (dropWhile is_space y)))"
    by blast
  with m_digit_line_SomeD(2,5) [OF n] show ?thesis
    unfolding digit_line_def by blast
qed

lemma clean_text_blank_only:
  assumes "c \<in> set (clean_text U t)" and "is_space c"
  shows "c = 32"
proof -
  from assms(1) obtain s where "c \<in> set (re_sub m_spaces [32] None s)"
    using set_strip by (auto simp: clean_text_def Let_def)
  then show ?thesis using assms(2) by (rule re_sub_spaces_only_blank)
qed

lemma clean_text_no_digit_line:
  assumes "ucd_ok U"
  shows "\<not> has_match (m_digit_line U) None (clean_text U t)"
proof
  let ?t2 = "re_sub (m_page U) [] None (re_sub m_newlines [10] None t)"
  let ?t3 = "re_sub (m_digit_line U) [] None ?t2"
  let ?t4 = "re_sub m_single_newline [32] None ?t3"
  let ?t5 = "re_sub m_spaces [32] None ?t4"
  assume m: "has_match (m_digit_line U) None (clean_text U t)"
  have "10 \<notin> set (clean_text U t)"
    using clean_text_blank_only [of 10 U t] is_space_10 by auto
  from digit_line_match_whole [OF this m] have "digit_line U (strip ?t5)"
    by (simp add: clean_text_def Let_def)
  then have "digit_line U ?t5" by (rule strip_digit_line_pull)
  then have "digit_line U ?t4"
    by (rule blank_digit_line_pull [OF assms ws_matcher_spaces])
  then have "digit_line U ?t3"
    by (rule blank_digit_line_pull [OF assms ws_matcher_single_newline])
  moreover have "\<not> digit_line U ?t3"
    by (rule digit_pass_no_digit_line [OF assms]) (simp add: line_start_def)
  ultimately show False by simp
qed

lemma spaces_pass_head:
  "\<not> is_space c \<Longrightarrow>
   re_sub m_spaces [32] p (c # cs) = c # re_sub m_spaces [32] (Some c) cs"
  by (simp add: re_sub_miss match_at_spaces m_spaces_def)

lemma spaces_hit_rest:
  assumes "match_at m_spaces p s = Some n"
  shows "drop n s = [] \<or> \<not> is_space (hd (drop n s))"
proof -
  from assms have "n = length (takeWhile is_space s)"
    by (auto simp: match_at_spaces m_spaces_def Let_def split: if_splits)
  then have "drop n s = dropWhile is_space s" by (simp add: dropWhile_eq_drop)
  then show ?thesis using hd_dropWhile [of is_space s] by auto
qed

lemma spaces_pass_successively:
  "successively (\<lambda>a b. \<not> (is_space a \<and> is_space b)) (re_sub m_spaces [32] p x)"
proof (induction p x rule: re_sub_induct [where m = m_spaces])
  case (Nil prev)
  show ?case by (simp add: re_sub_Nil)
next
  case (hit prev s n)
  let ?out = "re_sub m_spaces [32] (Some (s ! (n - 1))) (drop n s)"
  have "?out = [] \<or> \<not> is_space (hd ?out)"
  proof (cases "drop n s")
    case Nil
    then show ?thesis by (simp add: re_sub_Nil)
  next
    case (Cons c cs)
    with spaces_hit_rest [OF hit(1)] have "\<not> is_space c" by simp
    with Cons show ?thesis by (simp add: spaces_pass_head)
  qed
  with hit(2) show ?case
    by (auto simp: re_sub_hit [OF hit(1)] successively_Cons)
next
  case (miss prev c cs)
  from miss(1) have "\<not> is_space c" by (simp add: match_at_spaces m_spaces_None)
  with miss(2) show ?case
    by (auto simp: re_sub_miss [OF miss(1)] successively_Cons)
qed

lemma strip_successively:
  assumes "successively P x"
  shows "successively P (strip x)"
proof -
  from strip_decomp obtain w1 w2 where "x = w1 @ strip x @ w2" by blast
  with assms have "successively P (w1 @ strip x @ w2)" by simp
  then show ?thesis by (simp add: successively_append_iff)
qed

lemma strip_trimmed:
  "strip x = [] \<or> (\<not> is_space (hd (strip x)) \<and> \<not> is_space (last (strip x)))"
proof (cases "strip x = []")
  case True
  then show ?thesis by simp
next
  case False
  let ?y = "dropWhile is_space x"
  let ?z = "dropWhile is_space (rev ?y)"
  from False have z: "?z \<noteq> []" by (simp add: strip_def)
  then have "\<not> is_space (hd ?z)" by (rule hd_dropWhile)
  moreover from z have "last (strip x) = hd ?z" by (simp add: strip_def last_rev)
  ultimately have l: "\<not> is_space (last (strip x))" by simp
  have "rev ?y = takeWhile is_space (rev ?y) @ ?z" by simp
  then have y: "?y = strip x @ rev (takeWhile is_space (rev ?y))"
    by (metis rev_append rev_rev_ident strip_def)
  with False have "hd ?y = hd (strip x)" by (metis hd_append2)
  moreover from y False have "?y \<noteq> []" by (metis append_is_Nil_conv)
  then have "\<not> is_space (hd ?y)" by (rule hd_dropWhile)
  ultimately show ?thesis using l by simp
qed

text \<open>
  C9 (as the code behaves). For character tables in which digits are word characters
  and whitespace is not, the output of \<open>clean_text\<close> contains an occurrence of the
  page-number pattern only if the text left by the pass that deletes page numbers
  already contains one; it contains no line consisting only of digits and no newline;
  its only whitespace character is the blank, no two blanks are adjacent, and it neither
  starts nor ends with whitespace.
\<close>

theorem clean_text_output:
  assumes "ucd_ok U"
  shows "(has_match (m_page U) None (clean_text U t) \<longrightarrow>
            has_match (m_page U) None
              (re_sub (m_page U) [] None (re_sub m_newlines [10] None t))) \<and>
         \<not> has_match (m_digit_line U) None (clean_text U t) \<and>
         10 \<notin> set (clean_text U t) \<and>
         (\<forall>c \<in> set (clean_text U t). is_space c \<longrightarrow> c = 32) \<and>
         successively (\<lambda>a b. \<not> (is_space a \<and> is_space b)) (clean_text U t) \<and>
         (clean_text U t = [] \<or>
          (\<not> is_space (hd (clean_text U t)) \<and> \<not> is_space (last (clean_text U t))))"
proof (intro conjI)
  show "has_match (m_page U) None (clean_text U t) \<longrightarrow>
            has_match (m_page U) None
              (re_sub (m_page U) [] None (re_sub m_newlines [10] None t))"
    using clean_text_page_pull [OF assms] by blast
  show "\<not> has_match (m_digit_line U) None (clean_text U t)"
    by (rule clean_text_no_digit_line [OF assms])
  show "10 \<notin> set (clean_text U t)"
    using clean_text_blank_only [of 10 U t] is_space_10 by auto
  show "\<forall>c \<in> set (clean_text U t). is_space c \<longrightarrow> c = 32"
    using clean_text_blank_only by blast
  show "successively (\<lambda>a b. \<not> (is_space a \<and> is_space b)) (clean_text U t)"
    unfolding clean_text_def Let_def
    by (rule strip_successively) (rule spaces_pass_successively)
  show "clean_text U t = [] \<or>
          (\<not> is_space (hd (clean_text U t)) \<and> \<not> is_space (last (clean_text U t)))"
    unfolding clean_text_def Let_def by (rule strip_trimmed)
qed


text \<open>
  The page-number pattern can survive: the single pass over \<open>Page Page 1 2\<close> deletes
  \<open>Page 1\<close>, which joins the first \<open>Page\<close> with the \<open>2\<close>, and the cleaned text is
  \<open>Page 2\<close>.
\<close>

theorem clean_text_page_counterexample:
  "clean_text ascii_ucd (str ''Page Page 1 2'') = str ''Page 2'' \<and>
   has_match (m_page ascii_ucd) None (clean_text ascii_ucd (str ''Page Page 1 2''))"
proof -
  have "matches (m_page ascii_ucd) None (str ''Page 2'')"
    by (simp add: matches_def scan_eval)
  then have "has_match (m_page ascii_ucd) None (str ''Page 2'')"
    by (simp add: str_simps)
  then show ?thesis by (simp only: clean_text_pages simp_thms)
qed

theorem clean_text_output_witness:
  "ucd_ok ascii_ucd \<and>
   \<not> has_match (m_page ascii_ucd) None
       (re_sub (m_page ascii_ucd) [] None
          (re_sub m_newlines [10] None (str ''a\<newline>Page 3\<newline>12\<newline>b''))) \<and>
   \<not> has_match (m_page ascii_ucd) None
       (clean_text ascii_ucd (str ''a\<newline>Page 3\<newline>12\<newline>b''))"
proof -
  let ?t = "str ''a\<newline>Page 3\<newline>12\<newline>b''"
  have 1: "re_sub m_newlines [10] None ?t = ?t"
    by (simp add: scan_eval)
  have 2: "re_sub (m_page ascii_ucd) [] None ?t = str ''a\<newline>\<newline>12\<newline>b''"
    by (simp add: scan_eval)
  have 3: "\<not> has_match (m_page ascii_ucd) None (str ''a\<newline>\<newline>12\<newline>b'')"
    by (simp add: matches_def scan_eval)
  have 4: "\<not> has_match (m_page ascii_ucd) None
       (re_sub (m_page ascii_ucd) [] None (re_sub m_newlines [10] None ?t))"
    unfolding 1 2 by (rule 3)
  from clean_text_output [OF ucd_ok_ascii, of ?t] 4
  have "\<not> has_match (m_page ascii_ucd) None (clean_text ascii_ucd ?t)" by blast
  with ucd_ok_ascii 4 show ?thesis by blast
qed

end
